theory Spec2Isabelle
  imports Main "HOL-Library.Sublist"
begin

section \<open>C memory and strings\<close>

text \<open>
  The code under study is \<^verbatim>\<open>vfs_esp32.h\<close>: the path confinement layer of an FTP
  server.  It works on \<^verbatim>\<open>char\<close> arrays through pointers.  A pointer into an array is
  modelled by the bytes from the pointed-to byte to the end of the array (a \<open>char list\<close>),
  and a position behind the pointer by an index into that list.  A C string is the run of
  bytes before the first NUL.

  Lists are finite, C memory is not: here a read beyond the end of the list yields NUL and
  a write beyond it is dropped (\<open>peek\<close>, \<open>rd\<close>, \<open>memcpy\<close>), where C leaves the
  behaviour undefined.  The session invariant \<open>vfs_inv\<close> below keeps a NUL in each array
  behind the cwd, so that the code stays inside the arrays, and every session the code can
  reach satisfies it (lemma \<open>reachable_vfs_inv\<close>).

  Lengths and offsets are \<^verbatim>\<open>size_t\<close> (once \<^verbatim>\<open>int\<close>) in the source and \<open>nat\<close> here.
  Every value is bounded by the array size, so nothing wraps.  The differences
  \<open>cwdlen - rootlen\<close>, \<open>cwdlen - 1\<close> and \<open>len - 1\<close> truncate at 0 where C would wrap or
  index before the array; the invariant rules that out (\<open>0 < rootlen \<le> cwdlen\<close>, and
  the string in the array is never empty).
\<close>

abbreviation NUL :: char where
  "NUL \<equiv> CHR 0x00"

definition cstr :: "char list \<Rightarrow> char list" where
  "cstr m = takeWhile (\<lambda>c. c \<noteq> NUL) m"

definition strlen :: "char list \<Rightarrow> nat" where
  "strlen m = length (cstr m)"

definition peek :: "char list \<Rightarrow> nat \<Rightarrow> char" where
  "peek m i = (if i < length m then m ! i else NUL)"

text \<open>\<open>rd m off n\<close>: the \<open>n\<close> bytes at \<open>m + off\<close>.\<close>

definition rd :: "char list \<Rightarrow> nat \<Rightarrow> nat \<Rightarrow> char list" where
  "rd m off n = take n (drop off m @ replicate n NUL)"

definition memcpy :: "char list \<Rightarrow> nat \<Rightarrow> char list \<Rightarrow> char list" where
  "memcpy m dst bytes = take (length m) (take dst m @ bytes @ drop (dst + length bytes) m)"

text \<open>
  \<^verbatim>\<open>memmove(m + dst, m + src, n)\<close>: the source bytes are read before any is written, so
  overlapping ranges behave as in C.
\<close>

definition memmove :: "char list \<Rightarrow> nat \<Rightarrow> nat \<Rightarrow> nat \<Rightarrow> char list" where
  "memmove m dst src n = memcpy m dst (rd m src n)"

text \<open>\<^verbatim>\<open>memcmp(m + i, lit, length lit) == 0\<close>.\<close>

definition memcmp_eq :: "char list \<Rightarrow> nat \<Rightarrow> char list \<Rightarrow> bool" where
  "memcmp_eq m i lit = (rd m i (length lit) = lit)"

fun find_sub :: "char list \<Rightarrow> char list \<Rightarrow> nat option" where
  "find_sub needle [] = (if needle = [] then Some 0 else None)"
| "find_sub needle (x # xs) =
     (if prefix needle (x # xs) then Some 0 else map_option Suc (find_sub needle xs))"

text \<open>
  \<^verbatim>\<open>strstr(m + pos, needle)\<close>: the index (from \<open>m\<close>) of the first occurrence of the
  needle in the C string at \<open>m + pos\<close>, or \<open>None\<close> for the null pointer.
\<close>

definition strstr :: "char list \<Rightarrow> nat \<Rightarrow> char list \<Rightarrow> nat option" where
  "strstr m pos needle = map_option (\<lambda>k. pos + k) (find_sub needle (cstr (drop pos m)))"

fun last_index :: "char \<Rightarrow> char list \<Rightarrow> nat option" where
  "last_index c [] = None"
| "last_index c (x # xs) =
     (case last_index c xs of
        Some k \<Rightarrow> Some (Suc k)
      | None \<Rightarrow> if x = c then Some 0 else None)"

text \<open>\<^verbatim>\<open>strrchr(m, c)\<close> for a character \<open>c\<close> other than NUL.\<close>

definition strrchr :: "char list \<Rightarrow> char \<Rightarrow> nat option" where
  "strrchr m c = last_index c (cstr m)"

subsection \<open>Facts about the primitives\<close>

lemma length_rd: "length (rd m off n) = n"
  by (simp add: rd_def)

lemma length_memcpy: "length (memcpy m dst bs) = length m"
proof -
  have "length m \<le> length (take dst m @ bs @ drop (dst + length bs) m)"
    by (auto simp: min_def)
  then show ?thesis unfolding memcpy_def by (simp only: length_take min.absorb2)
qed

lemma length_memmove: "length (memmove m dst src n) = length m"
  by (simp add: memmove_def length_memcpy)

lemma memcpy_in_range:
  "dst + length bs \<le> length m \<Longrightarrow> memcpy m dst bs = take dst m @ bs @ drop (dst + length bs) m"
  by (simp add: memcpy_def)

lemma take_memcpy: "k \<le> dst \<Longrightarrow> take k (memcpy m dst bs) = take k m"
  by (cases "dst \<le> length m") (simp_all add: memcpy_def min_def)

lemma cstr_append_NUL: "NUL \<notin> set s \<Longrightarrow> cstr (s @ NUL # r) = s"
  by (induction s) (auto simp: cstr_def)

lemma cstr_append_left: "NUL \<notin> set s \<Longrightarrow> cstr (s @ t) = s @ cstr t"
  by (induction s) (auto simp: cstr_def)

lemma cstr_no_NUL: "NUL \<notin> set (cstr m)"
  by (auto simp: cstr_def dest: set_takeWhileD)

lemma cstr_id: "NUL \<notin> set m \<Longrightarrow> cstr m = m"
  by (auto simp: cstr_def)

lemma cstr_idem: "cstr (cstr m) = cstr m"
  by (simp add: cstr_id cstr_no_NUL)

lemma strlen_le: "strlen m \<le> length m"
  by (simp add: strlen_def cstr_def length_takeWhile_le)

lemma cstr_split: "cstr m @ dropWhile (\<lambda>c. c \<noteq> NUL) m = m"
  by (simp add: cstr_def)

lemma cstr_cases:
  obtains (unterminated) "cstr m = m" "NUL \<notin> set m"
        | (terminated) r where "m = cstr m @ NUL # r"
proof (cases "dropWhile (\<lambda>c. c \<noteq> NUL) m")
  case Nil
  with cstr_split[of m] have "cstr m = m" by (simp del: dropWhile_eq_Nil_conv)
  then show ?thesis using unterminated cstr_no_NUL[of m] by simp
next
  case (Cons a r)
  then have "a = NUL" using hd_dropWhile[of "\<lambda>c. c \<noteq> NUL" m] by fastforce
  with cstr_split[of m] Cons have "m = cstr m @ NUL # r" by simp
  then show ?thesis using terminated by blast
qed

lemma rd_string: "rd m 0 (strlen m + 1) = cstr m @ [NUL]"
proof (cases m rule: cstr_cases)
  case unterminated
  then show ?thesis by (simp add: rd_def strlen_def)
next
  case (terminated r)
  have "take (length (cstr m) + 1) ((cstr m @ NUL # r) @ replicate (length (cstr m) + 1) NUL)
        = cstr m @ [NUL]"
    by simp
  then show ?thesis using terminated by (simp add: rd_def strlen_def)
qed

lemma rd_drop: "rd m (i + j) n = rd (drop i m) j n"
  by (simp add: rd_def add.commute)

lemma cstr_drop: "k \<le> strlen m \<Longrightarrow> cstr (drop k m) = drop k (cstr m)"
proof (cases m rule: cstr_cases)
  case unterminated
  then have "NUL \<notin> set (drop k m)" by (auto dest: in_set_dropD)
  then show ?thesis using unterminated by (simp add: cstr_id)
next
  case (terminated r)
  assume k: "k \<le> strlen m"
  have n: "NUL \<notin> set (drop k (cstr m))"
    using cstr_no_NUL[of m] by (auto dest: in_set_dropD)
  have "drop k (cstr m @ NUL # r) = drop k (cstr m) @ NUL # r"
    using k by (simp add: strlen_def)
  then have "cstr (drop k (cstr m @ NUL # r)) = drop k (cstr m)"
    using n by (simp add: cstr_append_NUL)
  then show ?thesis using terminated by simp
qed

lemma strlen_drop: "k \<le> strlen m \<Longrightarrow> strlen (drop k m) = strlen m - k"
  by (simp add: strlen_def cstr_drop)

lemma strlen_Cons: "c \<noteq> NUL \<Longrightarrow> strlen (c # r) = Suc (strlen r)"
  by (simp add: strlen_def cstr_def)

lemma strlen_peek:
  assumes "peek m i \<noteq> NUL"
  shows "i < length m" and "strlen (drop i m) = Suc (strlen (drop (Suc i) m))"
proof -
  show i: "i < length m" using assms by (auto simp: peek_def split: if_splits)
  then have "drop i m = m ! i # drop (Suc i) m" by (simp add: Cons_nth_drop_Suc)
  moreover have "m ! i \<noteq> NUL" using assms i by (simp add: peek_def)
  ultimately show "strlen (drop i m) = Suc (strlen (drop (Suc i) m))"
    by (simp add: strlen_Cons)
qed

lemma strlen_NUL_at:
  assumes "i < length m" "m ! i = NUL"
  shows "strlen m \<le> i"
proof -
  have e: "take i m @ NUL # drop (Suc i) m = m"
    using assms by (metis id_take_nth_drop)
  have "length (takeWhile (\<lambda>c. c \<noteq> NUL) (xs @ NUL # ys)) \<le> length xs" for xs ys
    by (induction xs) auto
  from this[of "take i m" "drop (Suc i) m"] show ?thesis
    unfolding e using assms(1) by (simp add: strlen_def cstr_def)
qed

text \<open>
  Every \<^verbatim>\<open>memmove\<close> of \<^verbatim>\<open>normalize_path\<close> moves the tail of a string, terminator
  included, to the left: the string at the destination becomes the string at the source.
\<close>

lemma memmove_tail:
  assumes "dst < src" "src \<le> length m"
  shows "memmove m dst src (strlen (drop src m) + 1)
         = take dst m @ cstr (drop src m) @ NUL # drop (dst + strlen (drop src m) + 1) m"
proof -
  have "strlen (drop src m) \<le> length m - src"
    using strlen_le[of "drop src m"] by simp
  then have le: "dst + strlen (drop src m) + 1 \<le> length m"
    using assms by linarith
  have "rd m src (strlen (drop src m) + 1) = cstr (drop src m) @ [NUL]"
    using rd_drop[of m src 0] rd_string[of "drop src m"] by simp
  then show ?thesis
    using le by (simp add: memmove_def memcpy_in_range strlen_def)
qed

lemma cstr_memmove_tail:
  assumes "dst < src" "src \<le> length m"
  shows "cstr (drop dst (memmove m dst src (strlen (drop src m) + 1))) = cstr (drop src m)"
proof -
  have "length (take dst m) = dst" using assms by simp
  then show ?thesis
    unfolding memmove_tail[OF assms]
    by (simp add: cstr_append_NUL cstr_no_NUL)
qed

lemma find_sub_bound: "find_sub n xs = Some k \<Longrightarrow> k + length n \<le> length xs"
  by (induction xs arbitrary: k) (auto split: if_splits dest: prefix_length_le)

lemma strstr_bound:
  assumes "strstr m pos n = Some q"
  shows "pos \<le> q" and "(q - pos) + length n \<le> strlen (drop pos m)"
  using assms find_sub_bound by (auto simp: strstr_def strlen_def)

lemma strstr_strlen:
  assumes "strstr m pos n = Some q" "j \<le> length n"
  shows "strlen (drop (q + j) m) = strlen (drop pos m) - (q - pos) - j"
proof -
  have "(q - pos) + j \<le> strlen (drop pos m)" "pos \<le> q"
    using strstr_bound[OF assms(1)] assms(2) by auto
  then show ?thesis
    using strlen_drop[of "(q - pos) + j" "drop pos m"]
    by (simp add: add.commute add.left_commute)
qed

lemma strstr_in_range:
  assumes "strstr m pos n = Some q" "n \<noteq> []"
  shows "q + length n \<le> length m"
proof -
  have "(q - pos) + length n \<le> strlen (drop pos m)" "pos \<le> q" "0 < length n"
    using strstr_bound[OF assms(1)] assms(2) by auto
  moreover have "strlen (drop pos m) \<le> length m - pos"
    using strlen_le[of "drop pos m"] by simp
  ultimately show ?thesis by linarith
qed

lemma strlen_shift_step:
  assumes "strstr m pos n = Some q" "0 < j" "j \<le> length n"
  shows "strlen (drop q (memmove m q (q + j) (strlen (drop (q + j) m) + 1)))
         < strlen (drop pos m)"
proof -
  have n: "n \<noteq> []" using assms by auto
  have "q + j \<le> length m" using strstr_in_range[OF assms(1) n] assms(3) by simp
  then have "cstr (drop q (memmove m q (q + j) (strlen (drop (q + j) m) + 1)))
             = cstr (drop (q + j) m)"
    using assms(2) by (intro cstr_memmove_tail) simp_all
  then have "strlen (drop q (memmove m q (q + j) (strlen (drop (q + j) m) + 1)))
             = strlen (drop pos m) - (q - pos) - j"
    using strstr_strlen[OF assms(1,3)] by (simp add: strlen_def)
  moreover have "(q - pos) + length n \<le> strlen (drop pos m)"
    using strstr_bound[OF assms(1)] by simp
  ultimately show ?thesis using assms(2,3) by linarith
qed

lemma last_index_bound: "last_index c xs = Some k \<Longrightarrow> k < length xs"
  by (induction xs arbitrary: k) (auto split: option.splits if_splits)

lemma rd_nth: "j < n \<Longrightarrow> rd m i n ! j = peek m (i + j)"
  by (auto simp: rd_def peek_def nth_append add.commute)

lemma memcmp_eq_peek:
  "memcmp_eq m i lit \<longleftrightarrow> (\<forall>j < length lit. peek m (i + j) = lit ! j)"
  unfolding memcmp_eq_def list_eq_iff_nth_eq by (simp add: length_rd rd_nth)

section \<open>The path normalizer\<close>

text \<open>
  \<^verbatim>\<open>normalize_path(char* path)\<close> (lines 105-134) is three loops over the string at
  \<open>path\<close>, each one a recursive function here.  The argument \<open>m\<close> is the memory from
  \<open>path\<close> on, \<open>pos\<close> the offset of the C variable \<open>pos\<close> from \<open>path\<close>.

  The first loop (lines 106-107) removes a leading \<open>/\<close>, and the \<open>.\<close> of a leading
  \<open>./\<close>, one byte at a time.
\<close>

function strip_loop :: "char list \<Rightarrow> char list" where
  "strip_loop m =
     (if peek m 0 = CHR ''/'' \<or> (peek m 0 = CHR ''.'' \<and> peek m 1 = CHR ''/'')
      then strip_loop (memmove m 0 1 (strlen (drop 1 m) + 1))
      else m)"
  by pat_completeness auto

lemma strlen_strip_step:
  assumes "peek m 0 \<noteq> NUL"
  shows "strlen (memmove m 0 1 (strlen (drop 1 m) + 1)) < strlen m"
proof -
  from assms obtain c r where m: "m = c # r" "c \<noteq> NUL"
    by (cases m) (auto simp: peek_def)
  have "cstr (drop 0 (memmove m 0 1 (strlen (drop 1 m) + 1))) = cstr (drop 1 m)"
    by (rule cstr_memmove_tail) (simp_all add: m)
  then have "strlen (memmove m 0 1 (strlen (drop 1 m) + 1)) = strlen r"
    by (simp add: strlen_def m)
  then show ?thesis using m by (simp add: strlen_Cons)
qed

termination strip_loop
proof (relation "measure strlen")
  fix m :: "char list"
  assume "peek m 0 = CHR ''/'' \<or> peek m 0 = CHR ''.'' \<and> peek m 1 = CHR ''/''"
  then have "peek m 0 \<noteq> NUL" by auto
  then show "(memmove m 0 1 (strlen (drop 1 m) + 1), m) \<in> measure strlen"
    using strlen_strip_step by (simp only: in_measure)
qed simp

text \<open>The second loop (lines 109-112) drops one slash of every \<open>//\<close>.\<close>

function slashes_loop :: "char list \<Rightarrow> nat \<Rightarrow> char list" where
  "slashes_loop m pos =
     (case strstr m pos ''//'' of
        None \<Rightarrow> m
      | Some q \<Rightarrow> slashes_loop (memmove m q (q + 1) (strlen (drop (q + 1) m) + 1)) q)"
  by pat_completeness auto

termination slashes_loop
proof (relation "measure (\<lambda>(m, pos). strlen (drop pos m))")
  fix m :: "char list" and pos q :: nat
  assume "strstr m pos ''//'' = Some q"
  then have "strlen (drop q (memmove m q (q + 1) (strlen (drop (q + 1) m) + 1)))
             < strlen (drop pos m)"
    by (rule strlen_shift_step) simp_all
  then show "((memmove m q (q + 1) (strlen (drop (q + 1) m) + 1), q), (m, pos))
             \<in> measure (\<lambda>(m, pos). strlen (drop pos m))"
    by (simp only: in_measure prod.case)
qed simp

text \<open>
  Lines 121-129, the body of the \<open>/..\<close> branch, at a \<open>pos\<close> that points to \<open>/..\<close>
  followed by NUL or \<open>/\<close>: the string is cut at \<open>pos\<close>, the last slash before the cut is
  looked up, and what follows the \<open>..\<close> is moved there; without such a slash it is moved
  to the start of the fragment, without its leading slash.  The result is the new memory
  and the new \<open>pos\<close> (the C variable \<open>slash\<close>).
\<close>

definition dotdot_step :: "char list \<Rightarrow> nat \<Rightarrow> char list \<times> nat" where
  "dotdot_step m pos =
     (let m1 = m[pos := NUL] in
      case strrchr m1 (CHR ''/'') of
        Some slash \<Rightarrow>
          (memmove m1 slash (pos + 3) (strlen (drop (pos + 3) m1) + 1), slash)
      | None \<Rightarrow>
          (let pos' = (if peek m1 (pos + 3) = CHR ''/'' then pos + 1 else pos) in
           (memmove m1 0 (pos' + 3) (strlen (drop (pos' + 3) m1) + 1), 0)))"

text \<open>The third loop (lines 114-133) visits every \<open>/.\<close> of the string.\<close>

function dots_loop :: "char list \<Rightarrow> nat \<Rightarrow> char list" where
  "dots_loop m pos =
     (case strstr m pos ''/.'' of
        None \<Rightarrow> m
      | Some q \<Rightarrow>
          if memcmp_eq m q ''//'' then
            dots_loop (memmove m q (q + 1) (strlen (drop (q + 1) m) + 1)) q
          else if memcmp_eq m q [CHR ''/'', CHR ''.'', NUL] \<or> memcmp_eq m q ''/./'' then
            dots_loop (memmove m q (q + 2) (strlen (drop (q + 2) m) + 1)) q
          else if memcmp_eq m q [CHR ''/'', CHR ''.'', CHR ''.'', NUL]
                  \<or> memcmp_eq m q ''/../'' then
            (case dotdot_step m q of (m', slash) \<Rightarrow> dots_loop m' slash)
          else dots_loop m (q + 2))"
  by pat_completeness auto

lemma dotdot_step_strlen:
  assumes f: "strstr m pos ''/.'' = Some q"
      and c: "memcmp_eq m q [CHR ''/'', CHR ''.'', CHR ''.'', NUL] \<or> memcmp_eq m q ''/../''"
      and d: "dotdot_step m q = (m', slash)"
  shows "strlen (drop slash m') < strlen (drop pos m)"
proof -
  define m1 where "m1 = m[q := NUL]"
  have q2: "q + 2 \<le> length m" using strstr_in_range[OF f] by simp
  have p2: "peek m (q + 2) = CHR ''.''"
    using c by (auto simp: memcmp_eq_peek nth_Cons' dest: spec[of _ 2])
  have q3: "q + 3 \<le> length m" using strlen_peek(1)[of m "q + 2"] p2 by simp
  have s2: "strlen (drop (q + 2) m) = strlen (drop pos m) - (q - pos) - 2"
    using strstr_strlen[OF f, of 2] by simp
  have b: "(q - pos) + 2 \<le> strlen (drop pos m)" using strstr_bound[OF f] by simp
  have s3: "Suc (strlen (drop (q + 3) m)) = strlen (drop (q + 2) m)"
    using strlen_peek(2)[of m "q + 2"] p2 by (simp add: numeral_3_eq_3)
  have r3: "strlen (drop (q + 3) m) < strlen (drop pos m)"
    using s2 s3 b by linarith
  have d3: "drop (q + 3) m1 = drop (q + 3) m" by (simp add: m1_def)
  have len1: "length m1 = length m" by (simp add: m1_def)
  have z: "strlen m1 \<le> q"
    using q2 by (intro strlen_NUL_at) (simp_all add: m1_def)
  show ?thesis
  proof (cases "strrchr m1 (CHR ''/'')")
    case (Some s)
    then have "s < q" using last_index_bound[of "CHR ''/''" "cstr m1" s] z
      by (simp add: strrchr_def strlen_def)
    then have "cstr (drop s (memmove m1 s (q + 3) (strlen (drop (q + 3) m1) + 1)))
               = cstr (drop (q + 3) m1)"
      using q3 len1 by (intro cstr_memmove_tail) simp_all
    moreover have "m' = memmove m1 s (q + 3) (strlen (drop (q + 3) m1) + 1)" "slash = s"
      using d Some by (auto simp: dotdot_step_def m1_def[symmetric])
    ultimately show ?thesis using r3 d3 by (simp add: strlen_def)
  next
    case None
    show ?thesis
    proof (cases "peek m1 (q + 3) = CHR ''/''")
      case True
      then have pk: "peek m (q + 3) \<noteq> NUL"
        by (simp add: m1_def peek_def split: if_splits)
      have q4: "q + 4 \<le> length m" using strlen_peek(1)[OF pk] by simp
      have s4: "strlen (drop (q + 4) m) < strlen (drop (q + 3) m)"
        using strlen_peek(2)[OF pk] by (simp add: eval_nat_numeral)
      have d4: "drop (q + 4) m1 = drop (q + 4) m" by (simp add: m1_def)
      have "cstr (drop 0 (memmove m1 0 (q + 4) (strlen (drop (q + 4) m1) + 1)))
            = cstr (drop (q + 4) m1)"
        using q4 len1 by (intro cstr_memmove_tail) simp_all
      moreover have "m' = memmove m1 0 (q + 4) (strlen (drop (q + 4) m1) + 1)" "slash = 0"
        using d None True
        by (auto simp: dotdot_step_def m1_def[symmetric] Let_def add.commute)
      ultimately show ?thesis using r3 s4 d4 by (simp add: strlen_def)
    next
      case False
      have "cstr (drop 0 (memmove m1 0 (q + 3) (strlen (drop (q + 3) m1) + 1)))
            = cstr (drop (q + 3) m1)"
        using q3 len1 by (intro cstr_memmove_tail) simp_all
      moreover have "m' = memmove m1 0 (q + 3) (strlen (drop (q + 3) m1) + 1)" "slash = 0"
        using d None False by (auto simp: dotdot_step_def m1_def[symmetric] Let_def)
      ultimately show ?thesis using r3 d3 by (simp add: strlen_def)
    qed
  qed
qed

termination dots_loop
proof (relation "measure (\<lambda>(m, pos). strlen (drop pos m))")
  fix m :: "char list" and pos q :: nat
  assume f: "strstr m pos ''/.'' = Some q"
  have "strlen (drop q (memmove m q (q + 1) (strlen (drop (q + 1) m) + 1)))
        < strlen (drop pos m)"
    using f by (rule strlen_shift_step) simp_all
  then show "((memmove m q (q + 1) (strlen (drop (q + 1) m) + 1), q), (m, pos))
             \<in> measure (\<lambda>(m, pos). strlen (drop pos m))"
    by (simp only: in_measure prod.case)
next
  fix m :: "char list" and pos q :: nat
  assume f: "strstr m pos ''/.'' = Some q"
  have "strlen (drop q (memmove m q (q + 2) (strlen (drop (q + 2) m) + 1)))
        < strlen (drop pos m)"
    using f by (rule strlen_shift_step) simp_all
  then show "((memmove m q (q + 2) (strlen (drop (q + 2) m) + 1), q), (m, pos))
             \<in> measure (\<lambda>(m, pos). strlen (drop pos m))"
    by (simp only: in_measure prod.case)
next
  fix m m' :: "char list" and pos q slash :: nat
  assume f: "strstr m pos ''/.'' = Some q"
     and c: "memcmp_eq m q [CHR ''/'', CHR ''.'', CHR ''.'', NUL] \<or> memcmp_eq m q ''/../''"
     and d: "(m', slash) = dotdot_step m q"
  have "strlen (drop slash m') < strlen (drop pos m)"
    using dotdot_step_strlen[OF f c d[symmetric]] .
  then show "((m', slash), (m, pos)) \<in> measure (\<lambda>(m, pos). strlen (drop pos m))"
    by (simp only: in_measure prod.case)
next
  fix m :: "char list" and pos q :: nat
  assume f: "strstr m pos ''/.'' = Some q"
  have "strlen (drop (q + 2) m) < strlen (drop pos m)"
    using strstr_strlen[OF f, of 2] strstr_bound[OF f] by simp
  then show "((m, q + 2), (m, pos)) \<in> measure (\<lambda>(m, pos). strlen (drop pos m))"
    by (simp only: in_measure prod.case)
qed simp

definition normalize_path :: "char list \<Rightarrow> char list" where
  "normalize_path path = dots_loop (slashes_loop (strip_loop path) 0) 0"

text \<open>
  The normalizer as a function on fragments: the fragment is laid out as a C string,
  \<^verbatim>\<open>normalize_path\<close> runs on it, and the string it leaves is read back.
\<close>

definition normalize :: "char list \<Rightarrow> char list" where
  "normalize p = cstr (normalize_path (p @ [NUL]))"

section \<open>The session and the operations on it\<close>

text \<open>
  \<^verbatim>\<open>vfs_t\<close> (lines 50-62): two path arrays of \<^verbatim>\<open>CONFIG_FATFS_MAX_LFN + 1\<close> bytes each
  and two lengths.  The configuration constant is not part of the source file; the size
  of the arrays is the length of the lists, and \<^verbatim>\<open>sizeof(vfs->file1)\<close> is
  \<open>length (file1 vfs)\<close>.
\<close>

record vfs_t =
  file1 :: "char list"
  file2 :: "char list"
  rootlen :: nat
  cwdlen :: nat

text \<open>
  The functions of the source return a null pointer or 1 on every failure and tell the
  failures apart in the log only.  The model names the failing branch: \<open>PathTooLong\<close>
  for the branches that log "path too long" (lines 139 and 196), \<open>PathEscapesRoot\<close> for
  "refusing absolute path which doesn't point into the current cwd" (line 155) and
  \<open>NotADirectory\<close> for "tried to chdir to a directory that doesn't exist" (line 215).
\<close>

datatype error = PathTooLong | PathEscapesRoot | NotADirectory

text \<open>The argument \<^verbatim>\<open>buffer\<close> of \<^verbatim>\<open>abspath_\<close> points to one of the two arrays.\<close>

datatype buffer = File1 | File2

fun get_buffer :: "vfs_t \<Rightarrow> buffer \<Rightarrow> char list" where
  "get_buffer vfs File1 = file1 vfs"
| "get_buffer vfs File2 = file2 vfs"

fun set_buffer :: "vfs_t \<Rightarrow> buffer \<Rightarrow> char list \<Rightarrow> vfs_t" where
  "set_buffer vfs File1 b = vfs\<lparr>file1 := b\<rparr>"
| "set_buffer vfs File2 b = vfs\<lparr>file2 := b\<rparr>"

text \<open>\<^verbatim>\<open>normalize_path(b + off)\<close>: the bytes before the pointer are out of its reach.\<close>

definition normalize_at :: "char list \<Rightarrow> nat \<Rightarrow> char list" where
  "normalize_at b off = take off b @ normalize_path (drop off b)"

text \<open>
  \<^verbatim>\<open>abspath_\<close> (lines 136-176), here \<open>abspath_impl\<close> since a name cannot end with an
  underscore.  The result is the session with the array written to, and \<open>None\<close> where
  the source returns \<^verbatim>\<open>buffer\<close> (the resolved path is then the C string in that array),
  or the failing branch where it returns the null pointer.  \<open>abspath_finish\<close> is the end
  of the function (lines 170-175), which its three successful branches share.
\<close>

definition abspath_finish :: "vfs_t \<Rightarrow> buffer \<Rightarrow> bool \<Rightarrow> char list \<Rightarrow> vfs_t \<times> error option" where
  "abspath_finish vfs buffer limit_to_cwd b =
     (set_buffer vfs buffer
        (if limit_to_cwd then normalize_at b (cwdlen vfs) else normalize_at b (rootlen vfs)),
      None)"

definition abspath_impl :: "vfs_t \<Rightarrow> buffer \<Rightarrow> nat \<Rightarrow> char list \<Rightarrow> bool \<Rightarrow> vfs_t \<times> error option" where
  "abspath_impl vfs buffer buflen path limit_to_cwd =
     (let len = strlen path in
      if buflen < cwdlen vfs + len + 1 then (vfs, Some PathTooLong)
      else
        let b = (get_buffer vfs buffer)[cwdlen vfs - 1 := CHR ''/''] in
        if peek path 0 = CHR ''/'' then
          if limit_to_cwd then
            if len < cwdlen vfs - rootlen vfs
               \<or> \<not> memcmp_eq b (rootlen vfs - 1) (rd path 0 (cwdlen vfs - rootlen vfs))
               \<or> (peek path (cwdlen vfs - rootlen vfs) \<noteq> NUL
                   \<and> peek path (cwdlen vfs - rootlen vfs) \<noteq> CHR ''/'')
            then (set_buffer vfs buffer b, Some PathEscapesRoot)
            else
              abspath_finish vfs buffer limit_to_cwd
                (memcpy b (cwdlen vfs - 1)
                   (rd path (cwdlen vfs - rootlen vfs) (len - (cwdlen vfs - rootlen vfs) + 1)))
          else
            abspath_finish vfs buffer limit_to_cwd
              (memcpy b (rootlen vfs - 1) (rd path 0 (len + 1)))
        else
          abspath_finish vfs buffer limit_to_cwd (memcpy b (cwdlen vfs) (rd path 0 (len + 1))))"

definition abspath :: "vfs_t \<Rightarrow> char list \<Rightarrow> vfs_t \<times> error option" where
  "abspath vfs path = abspath_impl vfs File1 (length (file1 vfs)) path True"

definition abspath2 :: "vfs_t \<Rightarrow> char list \<Rightarrow> vfs_t \<times> error option" where
  "abspath2 vfs path = abspath_impl vfs File2 (length (file2 vfs)) path True"

text \<open>
  The path a successful \<^verbatim>\<open>abspath_\<close> returns, as its caller reads it: the C string at
  the start of the array.
\<close>

definition resolved :: "vfs_t \<times> error option \<Rightarrow> buffer \<Rightarrow> error + char list" where
  "resolved r buffer =
     (case snd r of Some e \<Rightarrow> Inl e | None \<Rightarrow> Inr (cstr (get_buffer (fst r) buffer)))"

text \<open>
  Lines 197-198 and 216-217 of \<^verbatim>\<open>vfs_chdir\<close>: the first \<open>cwdlen\<close> bytes of
  \<open>file1\<close> are copied back from \<open>file2\<close>, and the string is cut behind them.
\<close>

definition rollback :: "vfs_t \<Rightarrow> vfs_t" where
  "rollback vfs =
     vfs\<lparr>file1 := (memcpy (file1 vfs) 0 (rd (file2 vfs) 0 (cwdlen vfs)))[cwdlen vfs := NUL]\<rparr>"

text \<open>
  \<^verbatim>\<open>vfs_chdir\<close> (lines 186-220).  \<open>stat_isdir p\<close> stands for
  \<^verbatim>\<open>stat(p, &st) == 0 && S_ISDIR(st.st_mode)\<close> of the file system underneath.  The
  source returns 0 where the model returns \<open>None\<close> and 1 otherwise.  \<open>chdir_commit\<close> is
  the second half of the function (lines 207-219), entered with the local \<open>len\<close> either
  as \<^verbatim>\<open>strlen\<close> gave it or one more, after a slash was appended.
\<close>

definition chdir_commit :: "(char list \<Rightarrow> bool) \<Rightarrow> vfs_t \<Rightarrow> nat \<Rightarrow> vfs_t \<times> error option" where
  "chdir_commit stat_isdir vfs len =
     (let vfs = vfs\<lparr>file1 := (file1 vfs)[len - 1 := NUL]\<rparr> in
      if len = rootlen vfs \<or> stat_isdir (cstr (file1 vfs))
      then
        let vfs = vfs\<lparr>file1 := (file1 vfs)[len - 1 := CHR ''/'']\<rparr>;
            vfs = vfs\<lparr>cwdlen := len\<rparr>;
            vfs = vfs\<lparr>file2 := memcpy (file2 vfs) 0 (rd (file1 vfs) 0 (len + 1))\<rparr>
        in (vfs, None)
      else (rollback vfs, Some NotADirectory))"

definition vfs_chdir :: "(char list \<Rightarrow> bool) \<Rightarrow> vfs_t \<Rightarrow> char list \<Rightarrow> vfs_t \<times> error option" where
  "vfs_chdir stat_isdir vfs path =
     (case abspath_impl vfs File1 (length (file1 vfs)) path False of
        (vfs, Some e) \<Rightarrow> (vfs, Some e)
      | (vfs, None) \<Rightarrow>
          let len = strlen (file1 vfs) in
          if peek (file1 vfs) (len - 1) \<noteq> CHR ''/'' then
            if length (file1 vfs) \<le> len + 2 then (rollback vfs, Some PathTooLong)
            else
              chdir_commit stat_isdir
                (vfs\<lparr>file1 := (file1 vfs)[len := CHR ''/'', len + 1 := NUL]\<rparr>) (len + 1)
          else chdir_commit stat_isdir vfs len)"

text \<open>
  \<^verbatim>\<open>vfs_getcwd\<close> (lines 244-254): the string that \<^verbatim>\<open>strdup\<close> copies, and the session
  with the byte written.
\<close>

definition vfs_getcwd :: "vfs_t \<Rightarrow> vfs_t \<times> char list" where
  "vfs_getcwd vfs =
     (let vfs = (if rootlen vfs < cwdlen vfs
                 then vfs\<lparr>file1 := (file1 vfs)[cwdlen vfs - 1 := NUL]\<rparr>
                 else vfs\<lparr>file1 := (file1 vfs)[cwdlen vfs := NUL]\<rparr>)
      in (vfs, cstr (drop (rootlen vfs - 1) (file1 vfs))))"

text \<open>
  \<^verbatim>\<open>vfs_mkdir\<close> (lines 222-225) and \<^verbatim>\<open>vfs_rename\<close> (lines 237-242).  The delegates
  \<^verbatim>\<open>mkdir\<close> and \<^verbatim>\<open>rename\<close> of the file system are parameters; the last component of
  the result lists the calls made to the delegate, with the paths passed.
\<close>

definition vfs_mkdir ::
  "(char list \<Rightarrow> int \<Rightarrow> int) \<Rightarrow> vfs_t \<Rightarrow> char list \<Rightarrow> int \<Rightarrow> vfs_t \<times> int \<times> char list list" where
  "vfs_mkdir mkdir_fs vfs path mode =
     (case abspath vfs path of
        (vfs, Some e) \<Rightarrow> (vfs, 1, [])
      | (vfs, None) \<Rightarrow>
          (vfs, (if mkdir_fs (cstr (file1 vfs)) mode = 0 then 0 else 1), [cstr (file1 vfs)]))"

definition vfs_rename ::
  "(char list \<Rightarrow> char list \<Rightarrow> int) \<Rightarrow> vfs_t \<Rightarrow> char list \<Rightarrow> char list
    \<Rightarrow> vfs_t \<times> int \<times> (char list \<times> char list) list" where
  "vfs_rename rename_fs vfs from_path to_path =
     (case abspath vfs from_path of (vfs, from_failed) \<Rightarrow>
      case abspath2 vfs to_path of (vfs, to_failed) \<Rightarrow>
        if from_failed = None \<and> to_failed = None
        then (vfs,
              (if rename_fs (cstr (file1 vfs)) (cstr (file2 vfs)) \<noteq> 0 then 1 else 0),
              [(cstr (file1 vfs), cstr (file2 vfs))])
        else (vfs, 0, []))"

text \<open>
  \<^verbatim>\<open>vfs_openfs\<close> (lines 87-95).  \<open>mem\<close> is what \<^verbatim>\<open>malloc\<close> returns: \<open>None\<close> for the
  null pointer, or the bytes the two arrays hold before they are written.  The root is the
  macro \<^verbatim>\<open>VFS_ROOT\<close>; \<open>vfs_openfs_root\<close> is the function for any value of the macro.
\<close>

definition VFS_ROOT :: "char list" where
  "VFS_ROOT = ''/sdcard/''"

definition vfs_openfs_root :: "char list \<Rightarrow> (char list \<times> char list) option \<Rightarrow> vfs_t option" where
  "vfs_openfs_root root mem =
     (case mem of
        None \<Rightarrow> None
      | Some (m1, m2) \<Rightarrow>
          Some \<lparr>file1 = memcpy m1 0 (rd root 0 (strlen root + 1)),
                file2 = memcpy m2 0 (rd root 0 (strlen root + 1)),
                rootlen = strlen root,
                cwdlen = strlen root\<rparr>)"

definition vfs_openfs :: "(char list \<times> char list) option \<Rightarrow> vfs_t option" where
  "vfs_openfs mem = vfs_openfs_root VFS_ROOT mem"

section \<open>The invariant of a session\<close>

text \<open>
  What the comment of \<^verbatim>\<open>vfs_t\<close> (lines 51-59) says of the two arrays, made exact: the
  first \<open>cwdlen - 1\<close> bytes of both arrays are the same string, the cwd without its final
  slash; the root in front of it ends with a slash; the byte at \<open>cwdlen - 1\<close> is the
  separator "unless temporary replaced" and is therefore left open; and each array holds a
  NUL behind the cwd, so that no string function runs off the array.
\<close>

definition vfs_inv :: "vfs_t \<Rightarrow> bool" where
  "vfs_inv vfs \<longleftrightarrow>
     0 < rootlen vfs \<and> rootlen vfs \<le> cwdlen vfs \<and> cwdlen vfs < length (file1 vfs) \<and>
     length (file2 vfs) = length (file1 vfs) \<and>
     take (cwdlen vfs - 1) (file1 vfs) = take (cwdlen vfs - 1) (file2 vfs) \<and>
     NUL \<notin> set (take (cwdlen vfs - 1) (file2 vfs)) \<and>
     peek (file1 vfs) (rootlen vfs - 1) = CHR ''/'' \<and>
     peek (file2 vfs) (rootlen vfs - 1) = CHR ''/'' \<and>
     NUL \<in> set (drop (cwdlen vfs) (file1 vfs)) \<and>
     NUL \<in> set (drop (cwdlen vfs) (file2 vfs))"

text \<open>
  The committed cwd with its separator in place (\<open>/data/sub/\<close>), and the part of it
  that \<^verbatim>\<open>abspath_\<close> compares with an absolute client path: the bytes from the final slash
  of the root up to the separator (\<open>/sub\<close>).
\<close>

definition cwd_bytes :: "vfs_t \<Rightarrow> char list" where
  "cwd_bytes vfs = take (cwdlen vfs - 1) (file2 vfs) @ ''/''"

definition cwd_beyond_root :: "vfs_t \<Rightarrow> buffer \<Rightarrow> char list" where
  "cwd_beyond_root vfs buffer =
     take (cwdlen vfs - rootlen vfs) (drop (rootlen vfs - 1) (get_buffer vfs buffer))"

text \<open>
  The sessions the code can reach, for a root and an array size: \<^verbatim>\<open>vfs_openfs\<close> makes one,
  and \<^verbatim>\<open>abspath\<close>, \<^verbatim>\<open>abspath2\<close>, \<^verbatim>\<open>vfs_chdir\<close> and \<^verbatim>\<open>vfs_getcwd\<close> are the
  only functions that write to it (every other operation of the file goes through
  \<^verbatim>\<open>abspath\<close> or \<^verbatim>\<open>abspath2\<close>).  Lemma \<open>reachable_vfs_inv\<close> shows the invariant
  for all of them.
\<close>

inductive reachable :: "char list \<Rightarrow> nat \<Rightarrow> vfs_t \<Rightarrow> bool" for root :: "char list" and cap :: nat where
  opened: "vfs_openfs_root root (Some (m1, m2)) = Some vfs \<Longrightarrow> length m1 = cap \<Longrightarrow> length m2 = cap
           \<Longrightarrow> reachable root cap vfs"
| resolved1: "reachable root cap vfs \<Longrightarrow> reachable root cap (fst (abspath vfs path))"
| resolved2: "reachable root cap vfs \<Longrightarrow> reachable root cap (fst (abspath2 vfs path))"
| changed: "reachable root cap vfs \<Longrightarrow> reachable root cap (fst (vfs_chdir stat_isdir vfs path))"
| asked: "reachable root cap vfs \<Longrightarrow> reachable root cap (fst (vfs_getcwd vfs))"

section \<open>Two sessions to compute with\<close>

text \<open>
  A session with 32-byte arrays (\<^verbatim>\<open>CONFIG_FATFS_MAX_LFN = 31\<close>) and the root
  \<open>/data/\<close>, as \<^verbatim>\<open>vfs_openfs\<close> leaves it when \<^verbatim>\<open>malloc\<close> hands out zeroed memory,
  and the same session after a change to the directory \<open>sub\<close>.
\<close>

definition session_root :: vfs_t where
  "session_root =
     \<lparr>file1 = ''/data/'' @ replicate 26 NUL, file2 = ''/data/'' @ replicate 26 NUL,
      rootlen = 6, cwdlen = 6\<rparr>"

definition session_sub :: vfs_t where
  "session_sub =
     \<lparr>file1 = ''/data/sub/'' @ replicate 22 NUL, file2 = ''/data/sub/'' @ replicate 22 NUL,
      rootlen = 6, cwdlen = 10\<rparr>"

text \<open>The second session after \<^verbatim>\<open>vfs_getcwd\<close> has run on it.\<close>

definition session_sub_pwd :: vfs_t where
  "session_sub_pwd = fst (vfs_getcwd session_sub)"

lemma session_root_opened:
  "vfs_openfs_root ''/data/'' (Some (replicate 32 NUL, replicate 32 NUL)) = Some session_root"
  by code_simp

lemma session_sub_reached:
  "vfs_chdir (\<lambda>p. p = ''/data/sub'') session_root ''sub'' = (session_sub, None)"
  by code_simp

lemma vfs_inv_session_sub: "vfs_inv session_sub"
  by code_simp

lemma vfs_inv_session_root: "vfs_inv session_root"
  by code_simp

section \<open>Facts about the normalizer\<close>

declare strip_loop.simps [simp del] slashes_loop.simps [simp del] dots_loop.simps [simp del]

lemma length_strip_loop: "length (strip_loop m) = length m"
proof (induction m rule: strip_loop.induct)
  case (1 m)
  then show ?case
    by (subst strip_loop.simps) (auto simp: length_memmove)
qed

lemma length_slashes_loop: "length (slashes_loop m pos) = length m"
proof (induction m pos rule: slashes_loop.induct)
  case (1 m pos)
  then show ?case
    by (subst slashes_loop.simps) (auto simp: length_memmove split: option.split)
qed

lemma length_dotdot_step: "dotdot_step m q = (m', s) \<Longrightarrow> length m' = length m"
  by (auto simp: dotdot_step_def Let_def length_memmove split: option.splits if_splits)

lemma length_dots_loop: "length (dots_loop m pos) = length m"
proof (induction m pos rule: dots_loop.induct)
  case (1 m pos)
  show ?case
  proof (cases "strstr m pos ''/.''")
    case None
    then show ?thesis by (subst dots_loop.simps) simp
  next
    case (Some q)
    obtain m' s where d: "dotdot_step m q = (m', s)" by (cases "dotdot_step m q")
    show ?thesis
      using Some d "1.IH"(1)[OF Some] "1.IH"(2)[OF Some] "1.IH"(3)[OF Some _ _ _ d[symmetric]]
        "1.IH"(4)[OF Some] length_dotdot_step[OF d]
      by (subst dots_loop.simps) (auto simp: length_memmove)
  qed
qed

lemma length_normalize_path: "length (normalize_path m) = length m"
  by (simp add: normalize_path_def length_dots_loop length_slashes_loop length_strip_loop)

lemma length_normalize_at: "length (normalize_at b off) = length b"
  by (simp add: normalize_at_def length_normalize_path)

lemma take_normalize_at: "k \<le> off \<Longrightarrow> take k (normalize_at b off) = take k b"
proof (cases "off \<le> length b")
  case True
  moreover assume "k \<le> off"
  ultimately show ?thesis by (simp add: normalize_at_def min_def)
next
  case False
  moreover have "length (normalize_path []) = 0" by (simp add: length_normalize_path)
  ultimately show ?thesis by (simp add: normalize_at_def)
qed












text \<open>A NUL in the memory stays in the memory: the normalizer never runs off a string.\<close>

lemma NUL_memmove_tail:
  "dst < src \<Longrightarrow> src \<le> length m \<Longrightarrow> NUL \<in> set (memmove m dst src (strlen (drop src m) + 1))"
  using memmove_tail[of dst src m] by simp

lemma NUL_strip_loop: "NUL \<in> set m \<Longrightarrow> NUL \<in> set (strip_loop m)"
proof (induction m rule: strip_loop.induct)
  case (1 m)
  show ?case
  proof (cases "peek m 0 = CHR ''/'' \<or> (peek m 0 = CHR ''.'' \<and> peek m 1 = CHR ''/'')")
    case True
    then have "peek m 0 \<noteq> NUL" by auto
    then have "1 \<le> length m" using strlen_peek(1)[of m 0] by (cases m) simp_all
    then have "NUL \<in> set (memmove m 0 1 (strlen (drop 1 m) + 1))"
      by (intro NUL_memmove_tail) simp_all
    then show ?thesis using "1.IH"[OF True] True by (subst strip_loop.simps) simp
  next
    case False
    then show ?thesis using "1.prems" by (subst strip_loop.simps) auto
  qed
qed

lemma NUL_slashes_loop: "NUL \<in> set m \<Longrightarrow> NUL \<in> set (slashes_loop m pos)"
proof (induction m pos rule: slashes_loop.induct)
  case (1 m pos)
  show ?case
  proof (cases "strstr m pos ''//''")
    case None
    then show ?thesis using "1.prems" by (subst slashes_loop.simps) simp
  next
    case (Some q)
    have "q + 1 \<le> length m" using strstr_in_range[OF Some] by simp
    then have "NUL \<in> set (memmove m q (q + 1) (strlen (drop (q + 1) m) + 1))"
      by (intro NUL_memmove_tail) simp_all
    then show ?thesis using "1.IH"[OF Some] Some by (subst slashes_loop.simps) simp
  qed
qed

lemma dotdot_step_NUL:
  assumes f: "strstr m pos ''/.'' = Some q"
      and c: "memcmp_eq m q [CHR ''/'', CHR ''.'', CHR ''.'', NUL] \<or> memcmp_eq m q ''/../''"
      and d: "dotdot_step m q = (m', slash)"
  shows "NUL \<in> set m'"
proof -
  define m1 where "m1 = m[q := NUL]"
  have q2: "q + 2 \<le> length m" using strstr_in_range[OF f] by simp
  have p2: "peek m (q + 2) = CHR ''.''"
    using c by (auto simp: memcmp_eq_peek nth_Cons' dest: spec[of _ 2])
  have q3: "q + 3 \<le> length m1" using strlen_peek(1)[of m "q + 2"] p2 by (simp add: m1_def)
  have z: "strlen m1 \<le> q"
    using q2 by (intro strlen_NUL_at) (simp_all add: m1_def)
  show ?thesis
  proof (cases "strrchr m1 (CHR ''/'')")
    case (Some s)
    then have "s < q" using last_index_bound[of "CHR ''/''" "cstr m1" s] z
      by (simp add: strrchr_def strlen_def)
    then have "NUL \<in> set (memmove m1 s (q + 3) (strlen (drop (q + 3) m1) + 1))"
      using q3 by (intro NUL_memmove_tail) simp_all
    moreover have "m' = memmove m1 s (q + 3) (strlen (drop (q + 3) m1) + 1)"
      using d Some by (auto simp: dotdot_step_def m1_def[symmetric])
    ultimately show ?thesis by simp
  next
    case None
    show ?thesis
    proof (cases "peek m1 (q + 3) = CHR ''/''")
      case True
      then have "peek m1 (q + 3) \<noteq> NUL" by simp
      then have q4: "q + 4 \<le> length m1" using strlen_peek(1)[of m1 "q + 3"] by simp
      then have "NUL \<in> set (memmove m1 0 (q + 4) (strlen (drop (q + 4) m1) + 1))"
        by (intro NUL_memmove_tail) simp_all
      moreover have "m' = memmove m1 0 (q + 4) (strlen (drop (q + 4) m1) + 1)"
        using d None True
        by (auto simp: dotdot_step_def m1_def[symmetric] Let_def add.commute)
      ultimately show ?thesis by simp
    next
      case False
      have "NUL \<in> set (memmove m1 0 (q + 3) (strlen (drop (q + 3) m1) + 1))"
        using q3 by (intro NUL_memmove_tail) simp_all
      moreover have "m' = memmove m1 0 (q + 3) (strlen (drop (q + 3) m1) + 1)"
        using d None False by (auto simp: dotdot_step_def m1_def[symmetric] Let_def)
      ultimately show ?thesis by simp
    qed
  qed
qed

lemma NUL_dots_loop: "NUL \<in> set m \<Longrightarrow> NUL \<in> set (dots_loop m pos)"
proof (induction m pos rule: dots_loop.induct)
  case (1 m pos)
  show ?case
  proof (cases "strstr m pos ''/.''")
    case None
    then show ?thesis using "1.prems" by (subst dots_loop.simps) simp
  next
    case (Some q)
    have q2: "q + 2 \<le> length m" using strstr_in_range[OF Some] by simp
    have a: "NUL \<in> set (memmove m q (q + 1) (strlen (drop (q + 1) m) + 1))"
      using q2 by (intro NUL_memmove_tail) simp_all
    have b: "NUL \<in> set (memmove m q (q + 2) (strlen (drop (q + 2) m) + 1))"
      using q2 by (intro NUL_memmove_tail) simp_all
    obtain m' s where d: "dotdot_step m q = (m', s)" by (cases "dotdot_step m q")
    have c: "NUL \<in> set m'"
      if "memcmp_eq m q [CHR ''/'', CHR ''.'', CHR ''.'', NUL] \<or> memcmp_eq m q ''/../''"
      using dotdot_step_NUL[OF Some that d] .
    show ?thesis
      using Some d a b c "1.prems" "1.IH"(1)[OF Some] "1.IH"(2)[OF Some]
        "1.IH"(3)[OF Some _ _ _ d[symmetric]] "1.IH"(4)[OF Some]
      by (subst dots_loop.simps) auto
  qed
qed

lemma NUL_normalize_path: "NUL \<in> set m \<Longrightarrow> NUL \<in> set (normalize_path m)"
  by (simp add: normalize_path_def NUL_dots_loop NUL_slashes_loop NUL_strip_loop)

lemma drop_normalize_at:
  "off \<le> length b \<Longrightarrow> drop off (normalize_at b off) = normalize_path (drop off b)"
  by (simp add: normalize_at_def)

lemma NUL_normalize_at:
  "off \<le> length b \<Longrightarrow> NUL \<in> set (drop off b) \<Longrightarrow> NUL \<in> set (drop off (normalize_at b off))"
  by (simp add: drop_normalize_at NUL_normalize_path)

lemma strlen_terminated:
  assumes "NUL \<in> set m"
  shows "strlen m < length m" and "m ! strlen m = NUL"
proof -
  obtain r where m: "m = cstr m @ NUL # r"
    using assms by (cases m rule: cstr_cases) auto
  have "length m = length (cstr m) + 1 + length r" by (subst m) simp
  then show "strlen m < length m" by (simp add: strlen_def)
  have "(cstr m @ NUL # r) ! length (cstr m) = NUL" by simp
  then show "m ! strlen m = NUL" using m by (simp add: strlen_def)
qed

section \<open>Facts about the operations\<close>

lemma get_set_buffer: "get_buffer (set_buffer vfs b x) b = x"
  by (cases b) simp_all

lemma get_set_buffer_other: "b' \<noteq> b \<Longrightarrow> get_buffer (set_buffer vfs b x) b' = get_buffer vfs b'"
  by (cases b; cases b') simp_all

lemma lens_set_buffer:
  "rootlen (set_buffer vfs b x) = rootlen vfs" "cwdlen (set_buffer vfs b x) = cwdlen vfs"
  by (cases b; simp)+

lemma abspath_impl_lens:
  "rootlen (fst (abspath_impl vfs b n p lim)) = rootlen vfs"
  "cwdlen (fst (abspath_impl vfs b n p lim)) = cwdlen vfs"
  by (simp_all add: abspath_impl_def abspath_finish_def Let_def lens_set_buffer)

lemma abspath_impl_other:
  "b' \<noteq> b \<Longrightarrow> get_buffer (fst (abspath_impl vfs b n p lim)) b' = get_buffer vfs b'"
  by (simp add: abspath_impl_def abspath_finish_def Let_def get_set_buffer_other)

lemma abspath_impl_length:
  "length (get_buffer (fst (abspath_impl vfs b n p lim)) b) = length (get_buffer vfs b)"
  by (simp add: abspath_impl_def abspath_finish_def Let_def get_set_buffer length_normalize_at length_memcpy)

lemma abspath_impl_too_long:
  "snd (abspath_impl vfs b n p lim) = Some PathTooLong \<longleftrightarrow> n < cwdlen vfs + strlen p + 1"
  by (simp add: abspath_impl_def abspath_finish_def Let_def)

lemma abspath_impl_unlimited:
  "snd (abspath_impl vfs b n p False) = (if n < cwdlen vfs + strlen p + 1 then Some PathTooLong else None)"
  by (simp add: abspath_impl_def abspath_finish_def Let_def)

lemma rollback_lens: "rootlen (rollback v) = rootlen v" "cwdlen (rollback v) = cwdlen v" "file2 (rollback v) = file2 v"
  by (simp_all add: rollback_def)

lemma abspath_impl_too_long_state:
  "n < cwdlen vfs + strlen p + 1 \<Longrightarrow> abspath_impl vfs b n p lim = (vfs, Some PathTooLong)"
  by (simp add: abspath_impl_def abspath_finish_def Let_def)

lemma vfs_chdir_failure:
  assumes "vfs_chdir stat_isdir vfs path = (vfs', Some e)"
  shows "(length (file1 vfs) < cwdlen vfs + strlen path + 1 \<and> vfs' = vfs \<and> e = PathTooLong)
       \<or> (cwdlen vfs + strlen path + 1 \<le> length (file1 vfs)
          \<and> (e = PathTooLong \<or> e = NotADirectory)
          \<and> (\<exists>v. vfs' = rollback v \<and> cwdlen v = cwdlen vfs \<and> rootlen v = rootlen vfs
                 \<and> file2 v = file2 vfs \<and> length (file1 v) = length (file1 vfs)))"
proof (cases "length (file1 vfs) < cwdlen vfs + strlen path + 1")
  case True
  then show ?thesis
    using assms by (simp add: vfs_chdir_def abspath_impl_too_long_state)
next
  case False
  obtain v e0 where r: "abspath_impl vfs File1 (length (file1 vfs)) path False = (v, e0)"
    by (cases "abspath_impl vfs File1 (length (file1 vfs)) path False")
  have e0: "e0 = None"
    using abspath_impl_unlimited[of vfs File1 "length (file1 vfs)" path] r False by simp
  have v: "cwdlen v = cwdlen vfs" "rootlen v = rootlen vfs" "file2 v = file2 vfs"
    "length (file1 v) = length (file1 vfs)"
    using abspath_impl_lens[of vfs File1 "length (file1 vfs)" path False]
      abspath_impl_other[of File2 File1 vfs "length (file1 vfs)" path False]
      abspath_impl_length[of vfs File1 "length (file1 vfs)" path False]
    by (simp_all add: r)
  define len where "len = strlen (file1 v)"
  define v2 where "v2 = (if peek (file1 v) (len - 1) \<noteq> CHR ''/''
     then v\<lparr>file1 := (file1 v)[len := CHR ''/'', len + 1 := NUL]\<rparr> else v)"
  define len2 where "len2 = (if peek (file1 v) (len - 1) \<noteq> CHR ''/'' then len + 1 else len)"
  define v3 where "v3 = v2\<lparr>file1 := (file1 v2)[len2 - 1 := NUL]\<rparr>"
  have v3: "cwdlen v3 = cwdlen vfs" "rootlen v3 = rootlen vfs" "file2 v3 = file2 vfs"
    "length (file1 v3) = length (file1 vfs)"
    using v by (simp_all add: v3_def v2_def)
  have c: "vfs_chdir stat_isdir vfs path =
      (if peek (file1 v) (len - 1) \<noteq> CHR ''/'' \<and> length (file1 v) \<le> len + 2
       then (rollback v, Some PathTooLong)
       else if len2 = rootlen v3 \<or> stat_isdir (cstr (file1 v3))
       then (v3\<lparr>file1 := (file1 v3)[len2 - 1 := CHR ''/''], cwdlen := len2,
                 file2 := memcpy (file2 v3) 0 (rd ((file1 v3)[len2 - 1 := CHR ''/'']) 0 (len2 + 1))\<rparr>, None)
       else (rollback v3, Some NotADirectory))"
    by (auto simp: vfs_chdir_def chdir_commit_def r e0 Let_def len_def v2_def len2_def v3_def)
  show ?thesis
    using assms False v v3 unfolding c by (auto split: if_splits)
qed


lemma set_set_buffer: "set_buffer (set_buffer vfs b x) b y = set_buffer vfs b y"
  by (cases b) simp_all

lemma memcpy_update_inside:
  "dst \<le> i \<Longrightarrow> i < dst + length bs \<Longrightarrow> memcpy (m[i := c]) dst bs = memcpy m dst bs"
  by (simp add: memcpy_def)

lemma abspath_impl_separator:
  assumes "cwdlen vfs + strlen path + 1 \<le> buflen"
  shows "abspath_impl (set_buffer vfs buffer ((get_buffer vfs buffer)[cwdlen vfs - 1 := c]))
           buffer buflen path lim
         = abspath_impl vfs buffer buflen path lim"
  using assms
  by (simp add: abspath_impl_def abspath_finish_def Let_def get_set_buffer set_set_buffer lens_set_buffer)

lemma strlen_pos: "peek p 0 \<noteq> NUL \<Longrightarrow> 0 < strlen p"
  using strlen_peek(2)[of p 0] by simp

lemma abspath_impl_after_getcwd_file1:
  assumes "0 < rootlen vfs" "rootlen vfs \<le> cwdlen vfs"
      and "cwdlen vfs + strlen path + 1 \<le> buflen"
  shows "abspath_impl (fst (vfs_getcwd vfs)) File1 buflen path lim
         = abspath_impl vfs File1 buflen path lim"
proof (cases "rootlen vfs < cwdlen vfs")
  case True
  then have "fst (vfs_getcwd vfs) = set_buffer vfs File1 ((get_buffer vfs File1)[cwdlen vfs - 1 := NUL])"
    by (simp add: vfs_getcwd_def)
  then show ?thesis using abspath_impl_separator[OF assms(3), of File1 NUL lim] by simp
next
  case False
  then have eq: "cwdlen vfs = rootlen vfs" using assms by simp
  have g: "fst (vfs_getcwd vfs) = vfs\<lparr>file1 := (file1 vfs)[rootlen vfs := NUL]\<rparr>"
    by (simp add: vfs_getcwd_def eq)
  have sw: "(file1 vfs)[rootlen vfs := NUL, rootlen vfs - Suc 0 := CHR ''/'']
            = (file1 vfs)[rootlen vfs - Suc 0 := CHR ''/'', rootlen vfs := NUL]"
    using assms(1) by (intro list_update_swap) simp
  have l: "0 < strlen path" if "peek path 0 = CHR ''/''"
    using that strlen_pos[of path] by simp
  have a: "memcpy (b[rootlen vfs := NUL]) (rootlen vfs - Suc 0) (rd path 0 (Suc (strlen path)))
        = memcpy b (rootlen vfs - Suc 0) (rd path 0 (Suc (strlen path)))"
    if "peek path 0 = CHR ''/''" for b
    using l[OF that] assms(1) by (intro memcpy_update_inside) (simp_all add: length_rd)
  have r: "memcpy (b[rootlen vfs := NUL]) (rootlen vfs) (rd path 0 (Suc (strlen path)))
        = memcpy b (rootlen vfs) (rd path 0 (Suc (strlen path)))" for b
    by (intro memcpy_update_inside) (simp_all add: length_rd)
  have k0: "memcmp_eq b i (rd path 0 0)" for b i
    by (simp add: memcmp_eq_def rd_def)
  show ?thesis
    using assms(3)
    by (simp add: g abspath_impl_def abspath_finish_def Let_def eq sw a r k0)
qed

lemma abspath_impl_after_getcwd_file2:
  "resolved (abspath_impl (fst (vfs_getcwd vfs)) File2 buflen path lim) File2
   = resolved (abspath_impl vfs File2 buflen path lim) File2"
  by (auto simp: vfs_getcwd_def abspath_impl_def abspath_finish_def Let_def resolved_def)


lemma rd_in_range: "off + n \<le> length m \<Longrightarrow> rd m off n = take n (drop off m)"
  by (simp add: rd_def)

lemma take_cstr: "k \<le> strlen m \<Longrightarrow> take k m = take k (cstr m)"
proof -
  assume "k \<le> strlen m"
  then have "take k (cstr m @ dropWhile (\<lambda>c. c \<noteq> NUL) m) = take k (cstr m)"
    by (simp add: strlen_def)
  then show ?thesis by (simp only: cstr_split)
qed

lemma rd_path_prefix: "k \<le> strlen p \<Longrightarrow> rd p 0 k = take k (cstr p)"
  using strlen_le[of p] by (simp add: rd_in_range take_cstr)

lemma escape_test:
  assumes "0 < rootlen vfs" "rootlen vfs \<le> cwdlen vfs" "cwdlen vfs \<le> length b"
  shows "(strlen path < cwdlen vfs - rootlen vfs
          \<or> \<not> memcmp_eq (b[cwdlen vfs - 1 := c]) (rootlen vfs - 1) (rd path 0 (cwdlen vfs - rootlen vfs)))
         \<longleftrightarrow> \<not> prefix (take (cwdlen vfs - rootlen vfs) (drop (rootlen vfs - 1) b)) (cstr path)"
proof -
  define k where "k = cwdlen vfs - rootlen vfs"
  define V where "V = take k (drop (rootlen vfs - 1) b)"
  have lenV: "length V = k" using assms by (simp add: V_def k_def)
  have r: "rd (b[cwdlen vfs - 1 := c]) (rootlen vfs - 1) k = V"
    using assms by (simp add: rd_in_range V_def k_def drop_update_swap)
  have "(strlen path < k \<or> \<not> memcmp_eq (b[cwdlen vfs - 1 := c]) (rootlen vfs - 1) (rd path 0 k))
        \<longleftrightarrow> \<not> prefix V (cstr path)"
  proof (cases "strlen path < k")
    case True
    then have "\<not> prefix V (cstr path)"
      using lenV prefix_length_le[of V "cstr path"] by (auto simp: strlen_def)
    then show ?thesis using True by simp
  next
    case False
    then have p: "rd path 0 k = take k (cstr path)" by (simp add: rd_path_prefix)
    have "length (rd path 0 k) = k" by (simp add: length_rd)
    then have "memcmp_eq (b[cwdlen vfs - 1 := c]) (rootlen vfs - 1) (rd path 0 k)
               \<longleftrightarrow> V = take k (cstr path)"
      using r p by (simp add: memcmp_eq_def)
    moreover have "prefix V (cstr path) \<longleftrightarrow> V = take k (cstr path)"
    proof
      assume "prefix V (cstr path)"
      then obtain zs where "cstr path = V @ zs" by (auto simp: prefix_def)
      then show "V = take k (cstr path)" using lenV by simp
    next
      assume "V = take k (cstr path)"
      then show "prefix V (cstr path)" by (metis take_is_prefix)
    qed
    ultimately show ?thesis using False by simp
  qed
  then show ?thesis unfolding V_def k_def .
qed


lemma rd_tail: "k \<le> strlen p \<Longrightarrow> rd p k (strlen p - k + 1) = drop k (cstr p) @ [NUL]"
  using rd_drop[of p k 0] rd_string[of "drop k p"] by (simp add: strlen_drop cstr_drop)

lemma take_update_last: "i < length xs \<Longrightarrow> take (Suc i) (xs[i := x]) = take i xs @ [x]"
  by (simp add: take_Suc_conv_app_nth)

lemma take_memcpy_first:
  "dst + length bs \<le> length m \<Longrightarrow> bs \<noteq> [] \<Longrightarrow> take (Suc dst) (memcpy m dst bs) = take dst m @ [hd bs]"
  by (cases bs) (simp_all add: memcpy_in_range)

lemma vfs_inv_buffer:
  assumes "vfs_inv vfs"
  shows "take (cwdlen vfs - 1) (get_buffer vfs buffer) = take (cwdlen vfs - 1) (file2 vfs)"
    and "cwdlen vfs < length (get_buffer vfs buffer)"
    and "peek (get_buffer vfs buffer) (rootlen vfs - 1) = CHR ''/''"
    and "NUL \<in> set (drop (cwdlen vfs) (get_buffer vfs buffer))"
  using assms by (cases buffer; simp add: vfs_inv_def)+

lemma abspath_impl_success_prefix:
  assumes inv: "vfs_inv vfs"
      and ok: "abspath_impl vfs buffer (length (get_buffer vfs buffer)) path True = (vfs', None)"
  shows "take (cwdlen vfs) (get_buffer vfs' buffer)
         = take (cwdlen vfs - 1) (file2 vfs)
           @ [if peek path 0 = CHR ''/'' \<and> strlen path = cwdlen vfs - rootlen vfs
              then NUL else CHR ''/'']"
proof -
  define B where "B = get_buffer vfs buffer"
  define c where "c = cwdlen vfs"
  define k where "k = cwdlen vfs - rootlen vfs"
  define b0 where "b0 = B[c - 1 := CHR ''/'']"
  have c: "0 < c" "c < length B" "rootlen vfs \<le> c" "0 < rootlen vfs"
    using inv vfs_inv_buffer(2)[OF inv, of buffer] by (simp_all add: vfs_inv_def c_def B_def)
  have cap: "c + strlen path + 1 \<le> length B"
    using ok by (auto simp: abspath_impl_def abspath_finish_def Let_def B_def c_def split: if_splits)
  have tB: "take (c - 1) B = take (c - 1) (file2 vfs)"
    using vfs_inv_buffer(1)[OF inv] by (simp add: B_def c_def)
  have t0: "take (c - 1) b0 = take (c - 1) B" by (simp add: b0_def)
  have t0': "take c b0 = take (c - 1) B @ ''/''"
    using take_update_last[of "c - 1" B "CHR ''/''"] c by (simp add: b0_def)
  have l0: "length b0 = length B" by (simp add: b0_def)
  show ?thesis
  proof (cases "peek path 0 = CHR ''/''")
    case False
    then have "get_buffer vfs' buffer = normalize_at (memcpy b0 c (rd path 0 (strlen path + 1))) c"
      using ok cap
      by (auto simp: abspath_impl_def abspath_finish_def Let_def B_def c_def b0_def get_set_buffer split: if_splits)
    then have "take c (get_buffer vfs' buffer) = take c b0"
      by (simp add: take_normalize_at take_memcpy)
    then show ?thesis using t0' tB False by (simp add: c_def)
  next
    case True
    have noesc: "k \<le> strlen path" "peek path k = NUL \<or> peek path k = CHR ''/''"
      using ok cap True
      by (auto simp: abspath_impl_def abspath_finish_def Let_def B_def c_def k_def split: if_splits)
    have g: "get_buffer vfs' buffer
             = normalize_at (memcpy b0 (c - 1) (rd path k (strlen path - k + 1))) c"
      using ok cap True
      by (auto simp: abspath_impl_def abspath_finish_def Let_def B_def c_def b0_def k_def get_set_buffer
               split: if_splits)
    have bytes: "rd path k (strlen path - k + 1) = drop k (cstr path) @ [NUL]"
      using noesc(1) by (rule rd_tail)
    have hd: "hd (drop k (cstr path) @ [NUL]) = (if strlen path = k then NUL else CHR ''/'')"
    proof (cases "strlen path = k")
      case True
      then show ?thesis by (simp add: strlen_def)
    next
      case False
      then have lt: "k < strlen path" using noesc(1) by simp
      then have "k < length path" using strlen_le[of path] by simp
      moreover have "cstr path ! k = path ! k"
        using lt take_cstr[of "Suc k" path] 
        by (metis Suc_leI lessI nth_take)
      moreover have "path ! k \<noteq> NUL"
        using lt cstr_no_NUL[of path] \<open>cstr path ! k = path ! k\<close>
        by (metis nth_mem strlen_def)
      ultimately have "cstr path ! k = CHR ''/''"
        using noesc(2) by (simp add: peek_def)
      then show ?thesis using lt False by (simp add: hd_drop_conv_nth strlen_def hd_append)
    qed
    have fit: "(c - 1) + length (drop k (cstr path) @ [NUL]) \<le> length b0"
      using cap c l0 by (simp add: strlen_def)
    have "take c (get_buffer vfs' buffer) = take c (memcpy b0 (c - 1) (drop k (cstr path) @ [NUL]))"
      unfolding g bytes by (simp add: take_normalize_at)
    also have "\<dots> = take (c - 1) b0 @ [hd (drop k (cstr path) @ [NUL])]"
      using take_memcpy_first[OF fit] c by simp
    finally show ?thesis using True hd t0 tB by (simp add: c_def k_def)
  qed
qed

lemma cwd_bytes_no_NUL: "vfs_inv vfs \<Longrightarrow> NUL \<notin> set (cwd_bytes vfs)"
  by (simp add: vfs_inv_def cwd_bytes_def)

lemma length_cwd_bytes: "vfs_inv vfs \<Longrightarrow> length (cwd_bytes vfs) = cwdlen vfs"
  by (auto simp: vfs_inv_def cwd_bytes_def)


lemma update_split: "i < length xs \<Longrightarrow> xs[i := a] = take i xs @ a # drop (Suc i) xs"
  by (rule upd_conv_take_nth_drop)

lemma getcwd_value:
  assumes "0 < rootlen v" "rootlen v \<le> cwdlen v" "cwdlen v < length (file1 v)"
      and "NUL \<notin> set (take (cwdlen v - 1) (file1 v))"
      and "peek (file1 v) (rootlen v - 1) = CHR ''/''"
  shows "snd (vfs_getcwd v)
         = (if rootlen v < cwdlen v
            then drop (rootlen v - 1) (take (cwdlen v - 1) (file1 v))
            else ''/'')"
proof (cases "rootlen v < cwdlen v")
  case True
  define f where "f = file1 v"
  have i: "cwdlen v - 1 < length f" using assms by (simp add: f_def)
  have "f[cwdlen v - 1 := NUL] = take (cwdlen v - 1) f @ NUL # drop (Suc (cwdlen v - 1)) f"
    using i by (rule update_split)
  then have "drop (rootlen v - 1) (f[cwdlen v - 1 := NUL])
             = drop (rootlen v - 1) (take (cwdlen v - 1) f) @ NUL # drop (Suc (cwdlen v - 1)) f"
    using True i by simp
  moreover have "NUL \<notin> set (drop (rootlen v - 1) (take (cwdlen v - 1) f))"
    using assms(4) by (auto simp: f_def dest: in_set_dropD)
  ultimately have "cstr (drop (rootlen v - 1) (f[cwdlen v - 1 := NUL]))
                   = drop (rootlen v - 1) (take (cwdlen v - 1) f)"
    by (simp add: cstr_append_NUL)
  then show ?thesis using True by (simp add: vfs_getcwd_def f_def)
next
  case False
  then have eq: "cwdlen v = rootlen v" using assms by simp
  define f where "f = file1 v"
  have r: "rootlen v < length f" "0 < rootlen v" using assms eq by (simp_all add: f_def)
  then have s: "f ! (rootlen v - 1) = CHR ''/''"
    using assms(5) by (simp add: peek_def f_def split: if_splits)
  have "f[rootlen v := NUL] = take (rootlen v) f @ NUL # drop (Suc (rootlen v)) f"
    using r(1) by (rule update_split)
  then have "drop (rootlen v - 1) (f[rootlen v := NUL])
             = drop (rootlen v - 1) (take (rootlen v) f) @ NUL # drop (Suc (rootlen v)) f"
    using r by simp
  moreover have "drop (rootlen v - 1) (take (rootlen v) f) = [f ! (rootlen v - 1)]"
  proof -
    obtain j where j: "rootlen v = Suc j" using r(2) by (cases "rootlen v") simp_all
    then have "take (Suc j) f = take j f @ [f ! j]"
      using r(1) by (simp add: take_Suc_conv_app_nth)
    then show ?thesis using r(1) j by simp
  qed
  ultimately have "cstr (drop (rootlen v - 1) (f[rootlen v := NUL])) = ''/''"
    using s by (simp add: cstr_def)
  then show ?thesis using False by (simp add: vfs_getcwd_def f_def eq)
qed


lemma rollback_file1:
  assumes "cwdlen v < length (file1 v)" "length (file2 v) = length (file1 v)"
  shows "take (cwdlen v) (file1 (rollback v)) = take (cwdlen v) (file2 v)"
    and "length (file1 (rollback v)) = length (file1 v)"
    and "file1 (rollback v) ! cwdlen v = NUL"
proof -
  have rd: "rd (file2 v) 0 (cwdlen v) = take (cwdlen v) (file2 v)"
    using assms by (simp add: rd_in_range)
  have m: "memcpy (file1 v) 0 (take (cwdlen v) (file2 v))
           = take (cwdlen v) (file2 v) @ drop (cwdlen v) (file1 v)"
    using assms by (simp add: memcpy_in_range)
  show "take (cwdlen v) (file1 (rollback v)) = take (cwdlen v) (file2 v)"
    using assms by (simp add: rollback_def rd m)
  show "length (file1 (rollback v)) = length (file1 v)"
    by (simp add: rollback_def length_memcpy)
  show "file1 (rollback v) ! cwdlen v = NUL"
    using assms by (simp add: rollback_def length_memcpy)
qed

lemma take_take_le: "j \<le> k \<Longrightarrow> take k xs = take k ys \<Longrightarrow> take j xs = take j ys"
  by (metis min.absorb1 take_take)

lemma peek_take: "i < k \<Longrightarrow> take k xs = take k ys \<Longrightarrow> length xs = length ys \<Longrightarrow> peek xs i = peek ys i"
  by (metis nth_take peek_def)

lemma NUL_in_drop: "i < length xs \<Longrightarrow> xs ! i = NUL \<Longrightarrow> NUL \<in> set (drop i xs)"
  by (metis Cons_nth_drop_Suc list.set_intros(1))


text \<open>
  What \<^verbatim>\<open>vfs_rename\<close> returns when a resolution has failed: 0, and no call of the
  delegate.
\<close>

lemma vfs_rename_unresolved:
  assumes "snd (abspath vfs from_path) \<noteq> None
           \<or> snd (abspath2 (fst (abspath vfs from_path)) to_path) \<noteq> None"
  shows "snd (vfs_rename rename_fs vfs from_path to_path) = (0, [])"
  using assms by (auto simp: vfs_rename_def split: prod.splits)

lemma vfs_mkdir_unresolved:
  assumes "snd (abspath vfs path) \<noteq> None"
  shows "snd (vfs_mkdir mkdir_fs vfs path mode) = (1, [])"
  using assms by (auto simp: vfs_mkdir_def split: prod.splits option.splits)

subsection \<open>The invariant holds in every session the code can reach\<close>

lemma vfs_chdir_unfold:
  assumes r: "abspath_impl vfs File1 (length (file1 vfs)) path False = (v, None)"
  defines "len \<equiv> strlen (file1 v)"
  defines "app \<equiv> peek (file1 v) (len - 1) \<noteq> CHR ''/''"
  defines "F2 \<equiv> (if app then (file1 v)[len := CHR ''/'', len + 1 := NUL] else file1 v)"
  defines "L2 \<equiv> (if app then len + 1 else len)"
  shows "vfs_chdir stat_isdir vfs path =
      (if app \<and> length (file1 v) \<le> len + 2 then (rollback v, Some PathTooLong)
       else if L2 = rootlen v \<or> stat_isdir (cstr (F2[L2 - 1 := NUL]))
       then (v\<lparr>file1 := F2[L2 - 1 := CHR ''/''], cwdlen := L2,
               file2 := memcpy (file2 v) 0 (rd (F2[L2 - 1 := CHR ''/'']) 0 (L2 + 1))\<rparr>, None)
       else (rollback (v\<lparr>file1 := F2[L2 - 1 := NUL]\<rparr>), Some NotADirectory))"
  by (auto simp: vfs_chdir_def chdir_commit_def r Let_def len_def app_def F2_def L2_def)

lemma nth_memcpy:
  "dst + length bs \<le> length m \<Longrightarrow> i < length bs \<Longrightarrow> memcpy m dst bs ! (dst + i) = bs ! i"
  by (simp add: memcpy_in_range nth_append)

lemma NUL_in_drop_le: "i < length xs \<Longrightarrow> xs ! i = NUL \<Longrightarrow> k \<le> i \<Longrightarrow> NUL \<in> set (drop k xs)"
  by (metis NUL_in_drop drop_drop le_add_diff_inverse2 set_drop_subset subsetD)

lemma take_root_cwd_bytes:
  assumes "vfs_inv vfs"
  shows "take (rootlen vfs) (cwd_bytes vfs) = take (rootlen vfs - 1) (file2 vfs) @ ''/''"
proof (cases "rootlen vfs < cwdlen vfs")
  case True
  have "0 < rootlen vfs" using assms by (simp add: vfs_inv_def)
  then obtain j where rj: "rootlen vfs = Suc j" by (cases "rootlen vfs") simp_all
  have p: "peek (file2 vfs) (rootlen vfs - 1) = CHR ''/''" "cwdlen vfs < length (file2 vfs)"
    using assms by (simp_all add: vfs_inv_def)
  have j: "rootlen vfs = Suc j" "j < cwdlen vfs - 1" "j < length (file2 vfs)"
    "file2 vfs ! j = CHR ''/''"
    using rj True p by (simp_all add: peek_def split: if_splits)
  have "take (Suc j) (cwd_bytes vfs) = take (Suc j) (take (cwdlen vfs - 1) (file2 vfs))"
    using j assms by (simp add: cwd_bytes_def vfs_inv_def)
  also have "\<dots> = take (Suc j) (file2 vfs)" using j by (simp add: min_def)
  also have "\<dots> = take j (file2 vfs) @ [file2 vfs ! j]"
    using j by (simp add: take_Suc_conv_app_nth)
  finally show ?thesis using j by simp
next
  case False
  then have "cwdlen vfs = rootlen vfs" using assms by (simp add: vfs_inv_def)
  then show ?thesis using assms by (auto simp: cwd_bytes_def vfs_inv_def min_def)
qed

lemma abspath_impl_root_relative:
  assumes inv: "vfs_inv vfs"
      and ok: "abspath_impl vfs File1 (length (file1 vfs)) path False = (v, None)"
  shows "rootlen v = rootlen vfs" "cwdlen v = cwdlen vfs" "file2 v = file2 vfs"
    and "length (file1 v) = length (file1 vfs)"
    and "take (rootlen vfs) (file1 v) = take (rootlen vfs) (cwd_bytes vfs)"
    and "NUL \<in> set (drop (rootlen vfs) (file1 v))"
proof -
  show "rootlen v = rootlen vfs" "cwdlen v = cwdlen vfs" "file2 v = file2 vfs"
    "length (file1 v) = length (file1 vfs)"
    using abspath_impl_lens[of vfs File1 "length (file1 vfs)" path False]
      abspath_impl_other[of File2 File1 vfs "length (file1 vfs)" path False]
      abspath_impl_length[of vfs File1 "length (file1 vfs)" path False]
    by (simp_all add: ok)
  define B where "B = file1 vfs"
  define c where "c = cwdlen vfs"
  define r where "r = rootlen vfs"
  define b0 where "b0 = B[c - 1 := CHR ''/'']"
  define len where "len = strlen path"
  define bs where "bs = rd path 0 (len + 1)"
  define dst where "dst = (if peek path 0 = CHR ''/'' then r - 1 else c)"
  have i: "0 < r" "r \<le> c" "c < length B"
    "take (c - 1) B = take (c - 1) (file2 vfs)"
    using inv by (simp_all add: vfs_inv_def B_def c_def r_def)
  have cap: "c + len + 1 \<le> length B"
    using ok by (auto simp: abspath_impl_def abspath_finish_def Let_def B_def c_def len_def split: if_splits)
  have F: "file1 v = normalize_at (memcpy b0 dst bs) r"
    using ok cap
    by (auto simp: abspath_impl_def abspath_finish_def Let_def B_def c_def r_def b0_def bs_def dst_def len_def
             split: if_splits)
  have bs: "bs = cstr path @ [NUL]" "length bs = len + 1"
    using rd_string[of path] by (simp_all add: bs_def len_def strlen_def)
  have l0: "length b0 = length B" by (simp add: b0_def)
  have fit: "dst + length bs \<le> length b0"
    using cap i bs l0 by (simp add: dst_def)
  have t0: "take c b0 = cwd_bytes vfs"
    using take_update_last[of "c - 1" B "CHR ''/''"] i
    by (simp add: b0_def cwd_bytes_def c_def[symmetric])
  have "take r (memcpy b0 dst bs) = take r (cwd_bytes vfs)"
  proof (cases "peek path 0 = CHR ''/''")
    case False
    then have "take r (memcpy b0 dst bs) = take r b0"
      using i by (simp add: dst_def take_memcpy)
    also have "\<dots> = take r (take c b0)" using i by (simp add: min_def)
    finally show ?thesis using t0 by simp
  next
    case True
    then have d: "dst = r - 1" by (simp add: dst_def)
    have "0 < len" using True strlen_pos[of path] by (simp add: len_def)
    then have h: "hd bs = CHR ''/''"
      using True strlen_le[of path] take_cstr[of 1 path]
      by (cases "cstr path"; cases path) (auto simp: bs len_def strlen_def peek_def)
    have "take (Suc (r - 1)) (memcpy b0 (r - 1) bs) = take (r - 1) b0 @ [hd bs]"
      using fit bs d by (intro take_memcpy_first) auto
    moreover have "take (r - 1) b0 = take (r - 1) (file2 vfs)"
      using i take_take_le[OF _ i(4), of "r - 1"] by (simp add: b0_def)
    ultimately show ?thesis
      using take_root_cwd_bytes[OF inv] i h d by (simp add: r_def[symmetric])
  qed
  then show "take (rootlen vfs) (file1 v) = take (rootlen vfs) (cwd_bytes vfs)"
    by (simp add: F take_normalize_at r_def)
  have "memcpy b0 dst bs ! (dst + len) = bs ! len"
    using fit bs by (intro nth_memcpy) simp_all
  then have n: "memcpy b0 dst bs ! (dst + len) = NUL"
    using bs by (simp add: len_def strlen_def nth_append)
  have "r \<le> dst + len"
  proof (cases "peek path 0 = CHR ''/''")
    case True
    then have "0 < len" using strlen_pos[of path] by (simp add: len_def)
    then show ?thesis using True i by (simp add: dst_def)
  next
    case False
    then show ?thesis using i by (simp add: dst_def)
  qed
  moreover have "dst + len < length (memcpy b0 dst bs)"
    using fit bs by (simp add: length_memcpy)
  ultimately have "NUL \<in> set (drop r (memcpy b0 dst bs))"
    using n by (intro NUL_in_drop_le[of "dst + len"]) simp_all
  moreover have "r \<le> length (memcpy b0 dst bs)"
    using i l0 by (simp add: length_memcpy)
  ultimately show "NUL \<in> set (drop (rootlen vfs) (file1 v))"
    unfolding F r_def[symmetric] by (intro NUL_normalize_at)
qed

lemma vfs_inv_getcwd: "vfs_inv vfs \<Longrightarrow> vfs_inv (fst (vfs_getcwd vfs))"
proof -
  assume inv: "vfs_inv vfs"
  have i: "0 < rootlen vfs" "rootlen vfs \<le> cwdlen vfs" "cwdlen vfs < length (file1 vfs)"
    "NUL \<in> set (drop (cwdlen vfs) (file1 vfs))"
    "peek (file1 vfs) (rootlen vfs - 1) = CHR ''/''"
    using inv by (simp_all add: vfs_inv_def)
  show ?thesis
  proof (cases "rootlen vfs < cwdlen vfs")
    case True
    then have "peek ((file1 vfs)[cwdlen vfs - 1 := NUL]) (rootlen vfs - 1) = CHR ''/''"
      using i by (auto simp: peek_def split: if_splits)
    moreover have "drop (cwdlen vfs) ((file1 vfs)[cwdlen vfs - 1 := NUL]) = drop (cwdlen vfs) (file1 vfs)"
      using i by simp
    ultimately show ?thesis using inv True by (simp add: vfs_getcwd_def vfs_inv_def)
  next
    case False
    then have e: "cwdlen vfs = rootlen vfs" using i by simp
    have "peek ((file1 vfs)[rootlen vfs := NUL]) (rootlen vfs - 1) = CHR ''/''"
      using i by (auto simp: peek_def e split: if_splits)
    moreover have "NUL \<in> set (drop (rootlen vfs) ((file1 vfs)[rootlen vfs := NUL]))"
      using i e by (intro NUL_in_drop) simp_all
    ultimately show ?thesis using inv False by (simp add: vfs_getcwd_def vfs_inv_def e)
  qed
qed

lemma vfs_inv_openfs_root:
  assumes "vfs_openfs_root root (Some (m1, m2)) = Some vfs"
      and "0 < strlen root" "peek root (strlen root - 1) = CHR ''/''"
      and "length m2 = length m1" "strlen root < length m1"
  shows "vfs_inv vfs"
proof -
  define n where "n = strlen root"
  have bs: "rd root 0 (Suc n) = cstr root @ [NUL]" using rd_string[of root] by (simp add: n_def)
  have f: "memcpy m 0 (cstr root @ [NUL]) = cstr root @ NUL # drop (n + 1) m"
    if "n < length m" for m
    using that by (simp add: memcpy_in_range n_def strlen_def)
  have v: "vfs = \<lparr>file1 = cstr root @ NUL # drop (n + 1) m1,
                  file2 = cstr root @ NUL # drop (n + 1) m2, rootlen = n, cwdlen = n\<rparr>"
    using assms(1,4,5) f[of m1] f[of m2] by (auto simp: vfs_openfs_root_def bs n_def[symmetric])
  have l: "length (cstr root) = n" by (simp add: n_def strlen_def)
  have "n - 1 < strlen root" using assms(2) by (simp add: n_def)
  then have "cstr root ! (n - 1) = root ! (n - 1)" "n - 1 < length root"
    using take_cstr[of n root] strlen_le[of root] 
    by (metis n_def nth_take order_refl, simp add: n_def)
  then have s: "cstr root ! (n - 1) = CHR ''/''"
    using assms(3) by (simp add: peek_def n_def)
  have nn: "NUL \<notin> set (take (n - 1) (cstr root))"
    using cstr_no_NUL[of root] by (auto dest: in_set_takeD)
  show ?thesis
    using assms(2,4,5) l s nn
    by (auto simp: v vfs_inv_def peek_def nth_append n_def[symmetric])
qed

lemma vfs_inv_openfs:
  assumes "vfs_openfs (Some (m1, m2)) = Some vfs" "length m2 = length m1" "8 < length m1"
  shows "vfs_inv vfs"
proof -
  have "strlen VFS_ROOT = 8" "peek VFS_ROOT (strlen VFS_ROOT - 1) = CHR ''/''"
    by (simp_all add: VFS_ROOT_def strlen_def cstr_def peek_def)
  then show ?thesis
    using assms vfs_inv_openfs_root[of VFS_ROOT m1 m2 vfs] by (simp add: vfs_openfs_def)
qed

lemma vfs_inv_set_buffer:
  assumes "vfs_inv vfs" "length b = length (get_buffer vfs buffer)"
      and "take (cwdlen vfs - 1) b = take (cwdlen vfs - 1) (file2 vfs)"
      and "peek b (rootlen vfs - 1) = CHR ''/''"
      and "NUL \<in> set (drop (cwdlen vfs) b)"
  shows "vfs_inv (set_buffer vfs buffer b)"
  using assms by (cases buffer) (simp_all add: vfs_inv_def)

lemma abspath_impl_success_NUL:
  assumes inv: "vfs_inv vfs"
      and ok: "abspath_impl vfs buffer (length (get_buffer vfs buffer)) path True = (vfs', None)"
  shows "NUL \<in> set (drop (cwdlen vfs) (get_buffer vfs' buffer))"
proof -
  define B where "B = get_buffer vfs buffer"
  define c where "c = cwdlen vfs"
  define k where "k = cwdlen vfs - rootlen vfs"
  define b0 where "b0 = B[c - 1 := CHR ''/'']"
  have c: "0 < c" "c < length B" "NUL \<in> set (drop c B)"
    using inv vfs_inv_buffer(2,4)[OF inv, of buffer] by (simp_all add: vfs_inv_def c_def B_def)
  have cap: "c + strlen path + 1 \<le> length B"
    using ok by (auto simp: abspath_impl_def abspath_finish_def Let_def B_def c_def split: if_splits)
  have l0: "length b0 = length B" by (simp add: b0_def)
  have d0: "drop c b0 = drop c B" using c by (simp add: b0_def)
  have "\<exists>b1. get_buffer vfs' buffer = normalize_at b1 c \<and> length b1 = length B
             \<and> NUL \<in> set (drop c b1)"
  proof (cases "peek path 0 = CHR ''/''")
    case False
    define b1 where "b1 = memcpy b0 c (rd path 0 (strlen path + 1))"
    have g: "get_buffer vfs' buffer = normalize_at b1 c"
      using ok cap False
      by (auto simp: abspath_impl_def abspath_finish_def Let_def B_def c_def b0_def b1_def get_set_buffer
               split: if_splits)
    have bs: "rd path 0 (strlen path + 1) = cstr path @ [NUL]" by (rule rd_string)
    have "b1 ! (c + strlen path) = (cstr path @ [NUL]) ! strlen path"
      unfolding b1_def bs using cap l0 by (intro nth_memcpy) (simp_all add: strlen_def)
    then have "b1 ! (c + strlen path) = NUL" by (simp add: strlen_def)
    moreover have "c + strlen path < length b1"
      using cap l0 by (simp add: b1_def length_memcpy)
    ultimately have "NUL \<in> set (drop c b1)"
      by (intro NUL_in_drop_le[of "c + strlen path"]) simp_all
    then show ?thesis using g l0 by (auto simp: b1_def length_memcpy)
  next
    case True
    define b1 where "b1 = memcpy b0 (c - 1) (rd path k (strlen path - k + 1))"
    have noesc: "k \<le> strlen path"
      using ok cap True
      by (auto simp: abspath_impl_def abspath_finish_def Let_def B_def c_def k_def split: if_splits)
    have g: "get_buffer vfs' buffer = normalize_at b1 c"
      using ok cap True
      by (auto simp: abspath_impl_def abspath_finish_def Let_def B_def c_def b0_def b1_def k_def get_set_buffer
               split: if_splits)
    have bs: "rd path k (strlen path - k + 1) = drop k (cstr path) @ [NUL]"
      using noesc by (rule rd_tail)
    have lb: "length (drop k (cstr path) @ [NUL]) = strlen path - k + 1"
      by (simp add: strlen_def)
    have fit: "(c - 1) + length (drop k (cstr path) @ [NUL]) \<le> length b0"
      using cap c l0 noesc unfolding lb by simp
    have "NUL \<in> set (drop c b1)"
    proof (cases "strlen path = k")
      case True
      then have "b1 = take (c - 1) b0 @ [NUL] @ drop c b0"
        using fit c unfolding b1_def bs by (simp add: memcpy_in_range strlen_def)
      then have "drop c b1 = drop c b0" using c l0 by simp
      then show ?thesis using d0 c by simp
    next
      case False
      then have lt: "k < strlen path" using noesc by simp
      have "b1 ! ((c - 1) + (strlen path - k)) = (drop k (cstr path) @ [NUL]) ! (strlen path - k)"
        unfolding b1_def bs using fit by (intro nth_memcpy) (simp_all add: strlen_def)
      then have "b1 ! ((c - 1) + (strlen path - k)) = NUL"
        by (simp add: nth_append strlen_def)
      moreover have "(c - 1) + (strlen path - k) < length b1"
        using fit unfolding lb by (simp add: b1_def length_memcpy)
      moreover have "c \<le> (c - 1) + (strlen path - k)" using lt c by simp
      ultimately show ?thesis by (intro NUL_in_drop_le[of "(c - 1) + (strlen path - k)"])
    qed
    then show ?thesis using g l0 by (auto simp: b1_def length_memcpy)
  qed
  then obtain b1 where b1: "get_buffer vfs' buffer = normalize_at b1 c" "length b1 = length B"
      "NUL \<in> set (drop c b1)" by blast
  show ?thesis
    unfolding b1(1) c_def[symmetric] using b1(2,3) c by (intro NUL_normalize_at) simp_all
qed

lemma vfs_inv_abspath_impl:
  assumes inv: "vfs_inv vfs"
  shows "vfs_inv (fst (abspath_impl vfs buffer (length (get_buffer vfs buffer)) path True))"
proof -
  define B where "B = get_buffer vfs buffer"
  define c where "c = cwdlen vfs"
  define r where "r = rootlen vfs"
  define P where "P = take (c - 1) (file2 vfs)"
  obtain v e where res: "abspath_impl vfs buffer (length B) path True = (v, e)"
    by (cases "abspath_impl vfs buffer (length B) path True")
  have i: "0 < r" "r \<le> c" "c < length B" "take (c - 1) B = P"
    "peek B (r - 1) = CHR ''/''" "NUL \<in> set (drop c B)" "length P = c - 1"
    using inv vfs_inv_buffer[OF inv, of buffer]
    by (auto simp: vfs_inv_def c_def r_def B_def P_def)
  have pk: "peek b (r - 1) = CHR ''/''"
    if "take c b = P @ [x]" "length b = length B" "r = c \<longrightarrow> x = CHR ''/''" for b x
  proof (cases "r < c")
    case True
    then have lt: "r - 1 < c - 1" "r - 1 < c" "r - 1 < length B" using i by simp_all
    have "b ! (r - 1) = (take c b) ! (r - 1)" using lt by simp
    also have "\<dots> = P ! (r - 1)" using that(1) lt i(7) by (simp add: nth_append)
    also have "\<dots> = B ! (r - 1)" using i(4)[symmetric] lt by simp
    finally show ?thesis using i(5) lt that(2) by (simp add: peek_def)
  next
    case False
    then have e: "r = c" using i by simp
    have lt: "c - 1 < c" "c - 1 < length B" using i by simp_all
    have "b ! (c - 1) = (take c b) ! (c - 1)" using lt by simp
    also have "\<dots> = x" using that(1) i(7) by (simp add: nth_append)
    finally show ?thesis using e lt that(2,3) by (simp add: peek_def)
  qed
  have tk: "take (c - 1) b = P" if "take c b = P @ [x]" for b x
  proof -
    have "take (c - 1) b = take (c - 1) (take c b)" by (simp add: min_def)
    then show ?thesis using that i by simp
  qed
  have "vfs_inv v"
  proof (cases e)
    case (Some err)
    show ?thesis
    proof (cases "length B < c + strlen path + 1")
      case True
      then show ?thesis
        using res inv abspath_impl_too_long_state[of "length B" vfs path buffer True]
        by (simp add: c_def)
    next
      case False
      then have v: "v = set_buffer vfs buffer (B[c - 1 := CHR ''/''])"
        using res Some
        by (auto simp: abspath_impl_def abspath_finish_def Let_def B_def c_def split: if_splits)
      have t: "take c (B[c - 1 := CHR ''/'']) = P @ ''/''"
        using take_update_last[of "c - 1" B "CHR ''/''"] i by simp
      have "drop c (B[c - 1 := CHR ''/'']) = drop c B" using i by simp
      then show ?thesis
        unfolding v using inv i tk[OF t] pk[OF t]
        by (intro vfs_inv_set_buffer) (simp_all add: B_def c_def r_def P_def)
    qed
  next
    case None
    have ok: "abspath_impl vfs buffer (length (get_buffer vfs buffer)) path True = (v, None)"
      using res None by (simp add: B_def)
    define b where "b = get_buffer v buffer"
    have v: "v = set_buffer vfs buffer b"
      using ok by (auto simp: abspath_impl_def abspath_finish_def Let_def b_def get_set_buffer set_set_buffer
                        split: if_splits)
    have lb: "length b = length B"
      using abspath_impl_length[of vfs buffer "length B" path True] res
      by (simp add: b_def B_def)
    define x where "x = (if peek path 0 = CHR ''/'' \<and> strlen path = c - r then NUL else CHR ''/'')"
    have t: "take c b = P @ [x]"
      using abspath_impl_success_prefix[OF inv ok] by (simp add: b_def c_def r_def P_def x_def)
    have x: "r = c \<longrightarrow> x = CHR ''/''"
      using strlen_pos[of path] by (auto simp: x_def)
    have n: "NUL \<in> set (drop c b)"
      using abspath_impl_success_NUL[OF inv ok] by (simp add: b_def c_def)
    show ?thesis
      unfolding v using inv lb tk[OF t] pk[OF t lb x] n
      by (intro vfs_inv_set_buffer) (simp_all add: B_def c_def r_def P_def)
  qed
  then show ?thesis using res by (simp add: B_def)
qed

lemma vfs_inv_rollback:
  assumes inv: "vfs_inv vfs"
      and v: "cwdlen v = cwdlen vfs" "rootlen v = rootlen vfs" "file2 v = file2 vfs"
             "length (file1 v) = length (file1 vfs)"
  shows "vfs_inv (rollback v)"
    and "take (cwdlen vfs) (file1 (rollback v)) = take (cwdlen vfs) (file2 vfs)"
proof -
  have i: "0 < rootlen vfs" "rootlen vfs \<le> cwdlen vfs" "cwdlen vfs < length (file1 vfs)"
    "length (file2 vfs) = length (file1 vfs)"
    "NUL \<notin> set (take (cwdlen vfs - 1) (file2 vfs))"
    "peek (file2 vfs) (rootlen vfs - 1) = CHR ''/''"
    "NUL \<in> set (drop (cwdlen vfs) (file2 vfs))"
    using inv by (simp_all add: vfs_inv_def)
  have l: "rootlen (rollback v) = rootlen vfs" "cwdlen (rollback v) = cwdlen vfs"
    "file2 (rollback v) = file2 vfs"
    using v by (simp_all add: rollback_lens)
  have f: "take (cwdlen vfs) (file1 (rollback v)) = take (cwdlen vfs) (file2 vfs)"
    "length (file1 (rollback v)) = length (file1 vfs)" "file1 (rollback v) ! cwdlen vfs = NUL"
    using rollback_file1[of v] v i by simp_all
  show "take (cwdlen vfs) (file1 (rollback v)) = take (cwdlen vfs) (file2 vfs)" by (rule f(1))
  have f1: "take (cwdlen vfs - 1) (file1 (rollback v)) = take (cwdlen vfs - 1) (file2 vfs)"
    using f(1) by (rule take_take_le[rotated]) simp
  have pk: "peek (file1 (rollback v)) (rootlen vfs - 1) = CHR ''/''"
    using peek_take[OF _ f(1), of "rootlen vfs - 1"] i f(2) by simp
  have n: "NUL \<in> set (drop (cwdlen vfs) (file1 (rollback v)))"
    using f(2,3) i(3) by (intro NUL_in_drop) simp_all
  show "vfs_inv (rollback v)"
    using i l f(2) f1 pk n by (simp add: vfs_inv_def)
qed

lemma strlen_ge_prefix: "NUL \<notin> set (take r m) \<Longrightarrow> r \<le> length m \<Longrightarrow> r \<le> strlen m"
proof -
  assume a: "NUL \<notin> set (take r m)" "r \<le> length m"
  have "cstr (take r m @ drop r m) = take r m @ cstr (drop r m)"
    using a(1) by (rule cstr_append_left)
  then have "strlen m = r + strlen (drop r m)" using a(2) by (simp add: strlen_def)
  then show ?thesis by simp
qed

lemma take_strlen: "take (strlen m) m = cstr m"
  using take_cstr[of "strlen m" m] by (simp add: strlen_def)

lemma cwd_bytes_root_slash:
  assumes "vfs_inv vfs" "take (rootlen vfs) F = take (rootlen vfs) (cwd_bytes vfs)"
      and "rootlen vfs \<le> length F"
  shows "peek F (rootlen vfs - 1) = CHR ''/''" and "NUL \<notin> set (take (rootlen vfs) F)"
proof -
  have r: "0 < rootlen vfs" using assms(1) by (simp add: vfs_inv_def)
  have t: "take (rootlen vfs) F = take (rootlen vfs - 1) (file2 vfs) @ ''/''"
    using assms(2) take_root_cwd_bytes[OF assms(1)] by simp
  have l: "length (take (rootlen vfs - 1) (file2 vfs)) = rootlen vfs - 1"
    using assms(1) by (auto simp: vfs_inv_def min_def)
  have "F ! (rootlen vfs - 1) = take (rootlen vfs) F ! (rootlen vfs - 1)" using r by simp
  also have "\<dots> = CHR ''/''" unfolding t using l by (simp add: nth_append)
  finally show "peek F (rootlen vfs - 1) = CHR ''/''"
    using r assms(3) by (simp add: peek_def)
  have "NUL \<notin> set (cwd_bytes vfs)" using assms(1) by (rule cwd_bytes_no_NUL)
  then show "NUL \<notin> set (take (rootlen vfs) F)"
    unfolding assms(2) by (auto dest: in_set_takeD)
qed

lemma vfs_inv_chdir:
  assumes inv: "vfs_inv vfs"
  shows "vfs_inv (fst (vfs_chdir stat_isdir vfs path))"
proof (cases "snd (vfs_chdir stat_isdir vfs path)")
  case (Some e)
  then have fail: "vfs_chdir stat_isdir vfs path = (fst (vfs_chdir stat_isdir vfs path), Some e)"
    by (metis prod.collapse)
  from vfs_chdir_failure[OF fail] show ?thesis
    using inv vfs_inv_rollback(1)[OF inv] by auto
next
  case None
  obtain v e0 where res: "abspath_impl vfs File1 (length (file1 vfs)) path False = (v, e0)"
    by (cases "abspath_impl vfs File1 (length (file1 vfs)) path False")
  have e0: "e0 = None"
  proof (cases e0)
    case (Some x)
    then show ?thesis using None res by (simp add: vfs_chdir_def)
  qed simp
  have ok: "abspath_impl vfs File1 (length (file1 vfs)) path False = (v, None)"
    using res e0 by simp
  note a = abspath_impl_root_relative[OF inv ok]
  define r where "r = rootlen vfs"
  define F where "F = file1 v"
  define L where "L = strlen F"
  define app where "app \<longleftrightarrow> peek F (L - 1) \<noteq> CHR ''/''"
  define F2 where "F2 = (if app then F[L := CHR ''/'', L + 1 := NUL] else F)"
  define L2 where "L2 = (if app then L + 1 else L)"
  have i: "0 < r" "r \<le> length F" "length (file2 vfs) = length F"
    using inv a(4) by (simp_all add: vfs_inv_def r_def F_def)
  have rs: "peek F (r - 1) = CHR ''/''" "NUL \<notin> set (take r F)"
    using cwd_bytes_root_slash[OF inv, of F] a(5) i by (simp_all add: r_def F_def)
  have nF: "NUL \<in> set F" using a(6) by (auto simp: F_def dest: in_set_dropD)
  have L: "r \<le> L" "L < length F" "F ! L = NUL" "NUL \<notin> set (take L F)"
    using strlen_ge_prefix[OF rs(2) i(2)] strlen_terminated[OF nF] cstr_no_NUL[of F]
    by (simp_all add: L_def take_strlen)
  have u: "vfs_chdir stat_isdir vfs path =
      (if app \<and> length F \<le> L + 2 then (rollback v, Some PathTooLong)
       else if L2 = rootlen v \<or> stat_isdir (cstr (F2[L2 - 1 := NUL]))
       then (v\<lparr>file1 := F2[L2 - 1 := CHR ''/''], cwdlen := L2,
               file2 := memcpy (file2 v) 0 (rd (F2[L2 - 1 := CHR ''/'']) 0 (L2 + 1))\<rparr>, None)
       else (rollback (v\<lparr>file1 := F2[L2 - 1 := NUL]\<rparr>), Some NotADirectory))"
    unfolding F_def L_def app_def F2_def L2_def by (rule vfs_chdir_unfold[OF ok])
  have room: "\<not> (app \<and> length F \<le> L + 2)" using None u by (auto split: if_splits)
  have p: "length F2 = length F" "r \<le> L2" "L2 < length F" "F2 ! L2 = NUL"
    "NUL \<notin> set (take L2 F2)" "F2 ! (L2 - 1) = CHR ''/''" "take r F2 = take r F"
  proof -
    show "length F2 = length F" by (simp add: F2_def)
    show "r \<le> L2" using L by (simp add: L2_def)
    show "L2 < length F" using L room by (auto simp: L2_def)
    show "F2 ! L2 = NUL" using L room by (auto simp: L2_def F2_def)
    show "take r F2 = take r F" using L by (simp add: F2_def)
    show "F2 ! (L2 - 1) = CHR ''/''"
      using L room i by (auto simp: L2_def F2_def app_def peek_def split: if_splits)
    show "NUL \<notin> set (take L2 F2)"
    proof (cases app)
      case True
      then have "take L2 F2 = take L F @ ''/''"
        using take_update_last[of L F "CHR ''/''"] L by (simp add: L2_def F2_def)
      then show ?thesis using L by simp
    next
      case False
      then show ?thesis using L by (simp add: L2_def F2_def)
    qed
  qed
  have F4: "F2[L2 - 1 := CHR ''/''] = F2" using p(6) by (metis list_update_id)
  define G where "G = memcpy (file2 vfs) 0 (rd F2 0 (L2 + 1))"
  have u': "vfs_chdir stat_isdir vfs path =
      (if app \<and> length F \<le> L + 2 then (rollback v, Some PathTooLong)
       else if L2 = rootlen v \<or> stat_isdir (cstr (F2[L2 - 1 := NUL]))
       then (v\<lparr>file1 := F2, cwdlen := L2, file2 := G\<rparr>, None)
       else (rollback (v\<lparr>file1 := F2[L2 - 1 := NUL]\<rparr>), Some NotADirectory))"
    using u unfolding F4 G_def a(3) .
  have st: "fst (vfs_chdir stat_isdir vfs path) = v\<lparr>file1 := F2, cwdlen := L2, file2 := G\<rparr>"
    using None room unfolding u' by (auto split: if_splits)
  have rdF: "rd F2 0 (L2 + 1) = take (L2 + 1) F2" using p by (simp add: rd_in_range)
  have G: "length G = length F" "take (L2 + 1) G = take (L2 + 1) F2"
    using p i rdF by (simp_all add: G_def length_memcpy memcpy_in_range)
  have g1: "take (L2 - 1) F2 = take (L2 - 1) G"
    using G(2) by (rule take_take_le[rotated, symmetric]) simp
  have g2: "take L2 G = take L2 F2"
    using G(2) by (rule take_take_le[rotated]) simp
  have "set (take (L2 - 1) F2) \<subseteq> set (take L2 F2)"
    by (rule set_take_subset_set_take) simp
  then have g3: "NUL \<notin> set (take (L2 - 1) G)"
    using p(5) g1 by auto
  have "G ! L2 = take (L2 + 1) G ! L2" by simp
  also have "\<dots> = take (L2 + 1) F2 ! L2" by (simp only: G(2))
  also have "\<dots> = NUL" using p(4) by simp
  finally have g4: "G ! L2 = NUL" .
  have pk2: "peek F2 (r - 1) = CHR ''/''"
    using rs(1) p(1,7) i peek_take[of "r - 1" r F2 F] by simp
  have pkG: "peek G (r - 1) = CHR ''/''"
    using pk2 peek_take[of "r - 1" "L2 + 1" G F2] G p i by simp
  have n1: "NUL \<in> set (drop L2 F2)" using p by (intro NUL_in_drop) simp_all
  have n2: "NUL \<in> set (drop L2 G)" using p G g4 by (intro NUL_in_drop) simp_all
  show ?thesis
    unfolding st using i p g1 g3 pk2 pkG n1 n2 G a(1)
    by (simp add: vfs_inv_def r_def)
qed

lemma fst_vfs_rename:
  "fst (vfs_rename rename_fs vfs from_path to_path) = fst (abspath2 (fst (abspath vfs from_path)) to_path)"
  by (simp add: vfs_rename_def split: prod.splits)

lemma fst_vfs_mkdir: "fst (vfs_mkdir mkdir_fs vfs path mode) = fst (abspath vfs path)"
  by (simp add: vfs_mkdir_def split: prod.splits option.splits)

lemma reachable_vfs_inv:
  assumes "0 < strlen root" "peek root (strlen root - 1) = CHR ''/''" "strlen root < cap"
      and "reachable root cap vfs"
  shows "vfs_inv vfs"
  using assms(4)
proof (induction rule: reachable.induct)
  case (opened m1 m2 vfs)
  then show ?case using assms(1-3) vfs_inv_openfs_root[of root m1 m2 vfs] by simp
next
  case (resolved1 vfs path)
  then show ?case using vfs_inv_abspath_impl[of vfs File1 path] by (simp add: abspath_def)
next
  case (resolved2 vfs path)
  then show ?case using vfs_inv_abspath_impl[of vfs File2 path] by (simp add: abspath2_def)
next
  case (changed vfs stat_isdir path)
  then show ?case by (simp add: vfs_inv_chdir)
next
  case (asked vfs)
  then show ?case by (simp add: vfs_inv_getcwd)
qed

lemma reachable_session_sub: "reachable ''/data/'' 32 session_sub"
proof -
  have "reachable ''/data/'' 32 session_root"
    using session_root_opened by (rule reachable.opened) simp_all
  then have "reachable ''/data/'' 32 (fst (vfs_chdir (\<lambda>p. p = ''/data/sub'') session_root ''sub''))"
    by (rule reachable.changed)
  then show ?thesis by (simp add: session_sub_reached)
qed

section \<open>The claims\<close>

text \<open>
  Claim C1, as amended.  For a session that satisfies the invariant and every client path,
  if \<^verbatim>\<open>abspath_\<close> with \<open>limit_to_cwd = true\<close> succeeds on either array, the path it
  returns begins with the root (the first \<open>rootlen\<close> bytes of the committed cwd) and
  with the committed cwd up to its final separator, and is never shorter than \<open>rootlen\<close>,
  whatever \<open>..\<close> segments the client path holds.  It begins with the whole committed cwd,
  separator included, unless the client path is absolute and names the cwd itself (its
  length is \<open>cwdlen - rootlen\<close>): then the returned path is the cwd without the final
  separator.
\<close>

theorem resolved_path_confined:
  assumes "vfs_inv vfs"
      and "abspath_impl vfs buffer (length (get_buffer vfs buffer)) path True = (vfs', None)"
  shows "prefix (take (rootlen vfs) (cwd_bytes vfs)) (cstr (get_buffer vfs' buffer))
       \<and> rootlen vfs \<le> length (cstr (get_buffer vfs' buffer))
       \<and> prefix (butlast (cwd_bytes vfs)) (cstr (get_buffer vfs' buffer))
       \<and> (if peek path 0 = CHR ''/'' \<and> strlen path = cwdlen vfs - rootlen vfs
          then cstr (get_buffer vfs' buffer) = butlast (cwd_bytes vfs)
          else prefix (cwd_bytes vfs) (cstr (get_buffer vfs' buffer)))"
proof -
  define R where "R = get_buffer vfs' buffer"
  define P where "P = take (cwdlen vfs - 1) (file2 vfs)"
  have P: "NUL \<notin> set P" "length P = cwdlen vfs - 1" "cwd_bytes vfs = P @ ''/''"
    using assms(1) by (auto simp: vfs_inv_def P_def cwd_bytes_def)
  have R: "R = take (cwdlen vfs) R @ drop (cwdlen vfs) R" by simp
  have lens: "0 < rootlen vfs" "rootlen vfs \<le> cwdlen vfs" using assms(1) by (simp_all add: vfs_inv_def)
  have bl: "butlast (cwd_bytes vfs) = P" using P(3) by simp
  show ?thesis
  proof (cases "peek path 0 = CHR ''/'' \<and> strlen path = cwdlen vfs - rootlen vfs")
    case True
    then have "take (cwdlen vfs) R = P @ [NUL]"
      using abspath_impl_success_prefix[OF assms] by (simp add: R_def P_def)
    then have "R = P @ NUL # drop (cwdlen vfs) R"
      using R by simp
    then have "cstr R = cstr (P @ NUL # drop (cwdlen vfs) R)" by simp
    also have "\<dots> = P" using P(1) by (rule cstr_append_NUL)
    finally have cR: "cstr R = P" .
    have lt: "rootlen vfs < cwdlen vfs"
      using True strlen_pos[of path] lens by auto
    then have "take (rootlen vfs) (cwd_bytes vfs) = take (rootlen vfs) P"
      using P by simp
    then have "prefix (take (rootlen vfs) (cwd_bytes vfs)) P"
      by (simp add: take_is_prefix)
    moreover have "rootlen vfs \<le> length P" using lt P(2) by simp
    ultimately show ?thesis
      using True cR bl by (simp add: R_def[symmetric])
  next
    case False
    then have "take (cwdlen vfs) R = P @ ''/''"
      using abspath_impl_success_prefix[OF assms] by (simp add: R_def P_def)
    then have "R = (P @ ''/'') @ drop (cwdlen vfs) R" using R by simp
    then have "cstr R = cstr ((P @ ''/'') @ drop (cwdlen vfs) R)" by simp
    also have "\<dots> = (P @ ''/'') @ cstr (drop (cwdlen vfs) R)"
      using P(1) by (intro cstr_append_left) simp
    finally have cR: "cstr R = cwd_bytes vfs @ cstr (drop (cwdlen vfs) R)"
      using P(3) by simp
    have 1: "prefix (cwd_bytes vfs) (cstr R)" using cR by (simp add: prefix_def)
    have "prefix (take (rootlen vfs) (cwd_bytes vfs)) (cwd_bytes vfs)"
      by (rule take_is_prefix)
    then have 2: "prefix (take (rootlen vfs) (cwd_bytes vfs)) (cstr R)"
      using 1 by (rule prefix_order.trans)
    have "prefix P (cwd_bytes vfs)" using P(3) by (simp add: prefix_def)
    then have 3: "prefix (butlast (cwd_bytes vfs)) (cstr R)"
      unfolding bl using 1 by (rule prefix_order.trans)
    have "length (cwd_bytes vfs) \<le> length (cstr R)" using 1 by (rule prefix_length_le)
    then have 4: "rootlen vfs \<le> length (cstr R)"
      using P(2,3) lens by simp
    show ?thesis using False 1 2 3 4 by (auto simp: R_def[symmetric])
  qed
qed

text \<open>
  The theorem at the session with cwd \<open>/data/sub/\<close> and the client path
  \<open>../../etc\<close>: the returned path is \<open>/data/sub/etc\<close>.
\<close>

theorem resolved_path_confined_witness:
  "vfs_inv session_sub
   \<and> abspath_impl session_sub File1 (length (get_buffer session_sub File1)) ''../../etc'' True
       = (fst (abspath session_sub ''../../etc''), None)
   \<and> cstr (get_buffer (fst (abspath session_sub ''../../etc'')) File1) = ''/data/sub/etc''
   \<and> cwd_bytes session_sub = ''/data/sub/''
   \<and> prefix (cwd_bytes session_sub) (cstr (get_buffer (fst (abspath session_sub ''../../etc'')) File1))
   \<and> rootlen session_sub \<le> length (cstr (get_buffer (fst (abspath session_sub ''../../etc'')) File1))"
proof -
  have h: "abspath_impl session_sub File1 (length (get_buffer session_sub File1)) ''../../etc'' True
       = (fst (abspath session_sub ''../../etc''), None)"
    by code_simp
  have v: "cstr (get_buffer (fst (abspath session_sub ''../../etc'')) File1) = ''/data/sub/etc''"
    "cwd_bytes session_sub = ''/data/sub/''"
    "\<not> (peek ''../../etc'' 0 = CHR ''/'' \<and> strlen ''../../etc'' = cwdlen session_sub - rootlen session_sub)"
    by code_simp+
  show ?thesis
    using resolved_path_confined[OF vfs_inv_session_sub h] h v vfs_inv_session_sub
    by (simp only: if_False simp_thms)
qed

text \<open>
  The claim as first stated asks for the cwd prefix bytes in front of every returned path.
  The absolute path \<open>/sub\<close> in the session with cwd \<open>/data/sub/\<close> passes the test
  of lines 152-154, which accepts a path that ends where the cwd ends, and line 159 then
  writes the terminator over the separator: the returned path is \<open>/data/sub\<close>, one byte
  shorter than the cwd prefix.
\<close>

theorem resolved_path_confined_counterexample:
  "vfs_inv session_sub
   \<and> resolved (abspath session_sub ''/sub'') File1 = Inr ''/data/sub''
   \<and> cwd_bytes session_sub = ''/data/sub/''
   \<and> \<not> prefix (cwd_bytes session_sub) ''/data/sub''"
  by code_simp

text \<open>
  Claim C2 (if resolving either path of a rename fails, the rename reports failure and the
  delegate is never called).  The delegate is indeed not called, but the operation reports
  0, which is success: line 241 is \<^verbatim>\<open>from && to && rename(from, to) ? 1 : 0\<close>, and a
  null pointer makes the condition false.  The sibling \<^verbatim>\<open>vfs_mkdir\<close> returns 1 on the
  same failed resolution.  Evaluated for a source, and for a destination, that
  \<^verbatim>\<open>abspath_\<close> refuses in the session with cwd \<open>/data/sub/\<close>:
\<close>

theorem rename_unresolved_reports_success:
  "snd (abspath session_sub ''/other'') = Some PathEscapesRoot
   \<and> snd (vfs_rename rename_fs session_sub ''/other'' ''x'') = (0, [])
   \<and> snd (abspath2 (fst (abspath session_sub ''a'')) ''/other'') = Some PathEscapesRoot
   \<and> snd (vfs_rename rename_fs session_sub ''a'' ''/other'') = (0, [])
   \<and> snd (vfs_mkdir mkdir_fs session_sub ''/other'' mode) = (1, [])"
proof -
  have a: "snd (abspath session_sub ''/other'') = Some PathEscapesRoot"
    "snd (abspath2 (fst (abspath session_sub ''a'')) ''/other'') = Some PathEscapesRoot"
    by code_simp+
  show ?thesis
    using a by (auto simp: vfs_rename_def vfs_mkdir_def split: prod.splits option.splits)
qed







text \<open>
  Claim C5 (normalization is idempotent: \<open>normalize (normalize p) = normalize p\<close> for
  every fragment \<open>p\<close>).  The code breaks it: when a \<open>/..\<close> pops the first segment, the
  rest of the fragment moves to the start and the scan goes on from there, but the first
  loop, which strips a leading \<open>./\<close>, is not run again.  The fragment \<open>a/.././b\<close>
  normalizes to \<open>./b\<close>, and \<open>./b\<close> normalizes to \<open>b\<close>.
\<close>

theorem normalize_not_idempotent:
  "normalize ''a/.././b'' = ''./b'' \<and> normalize (normalize ''a/.././b'') = ''b''"
  by code_simp

text \<open>
  Claim C6, as amended.  For a session that satisfies the invariant and every client path,
  if \<^verbatim>\<open>vfs_chdir\<close> fails, for any of its three reasons, then \<^verbatim>\<open>vfs_getcwd\<close> returns
  afterwards exactly what it returned before, \<open>rootlen\<close>, \<open>cwdlen\<close> and the second
  array are unchanged, and the two arrays agree on the committed cwd up to its separator
  byte.  When the failure is the capacity check of the resolver the session is left
  untouched, separator byte included; after the two later failures all \<open>cwdlen\<close> bytes
  of the two arrays agree.  The session satisfies the invariant again.
\<close>

theorem chdir_failure_rolls_back:
  assumes inv: "vfs_inv vfs" and fail: "vfs_chdir stat_isdir vfs path = (vfs', Some e)"
  shows "snd (vfs_getcwd vfs') = snd (vfs_getcwd vfs)
       \<and> rootlen vfs' = rootlen vfs \<and> cwdlen vfs' = cwdlen vfs \<and> file2 vfs' = file2 vfs
       \<and> take (cwdlen vfs - 1) (file1 vfs') = take (cwdlen vfs - 1) (file2 vfs')
       \<and> (if length (file1 vfs) < cwdlen vfs + strlen path + 1 then vfs' = vfs
          else take (cwdlen vfs) (file1 vfs') = take (cwdlen vfs) (file2 vfs'))
       \<and> vfs_inv vfs'"
proof (cases "length (file1 vfs) < cwdlen vfs + strlen path + 1")
  case True
  then have "vfs' = vfs" using vfs_chdir_failure[OF fail] by auto
  then show ?thesis using inv True by (simp add: vfs_inv_def)
next
  case False
  then obtain v where v: "vfs' = rollback v" "cwdlen v = cwdlen vfs" "rootlen v = rootlen vfs"
      "file2 v = file2 vfs" "length (file1 v) = length (file1 vfs)"
    using vfs_chdir_failure[OF fail] by auto
  have i: "0 < rootlen vfs" "rootlen vfs \<le> cwdlen vfs" "cwdlen vfs < length (file1 vfs)"
    "take (cwdlen vfs - 1) (file1 vfs) = take (cwdlen vfs - 1) (file2 vfs)"
    "NUL \<notin> set (take (cwdlen vfs - 1) (file2 vfs))"
    "peek (file1 vfs) (rootlen vfs - 1) = CHR ''/''"
    using inv by (simp_all add: vfs_inv_def)
  have l: "rootlen vfs' = rootlen vfs" "cwdlen vfs' = cwdlen vfs" "file2 vfs' = file2 vfs"
    using v by (simp_all add: rollback_lens)
  have inv': "vfs_inv vfs'"
    unfolding v(1) using inv v(2-5) by (rule vfs_inv_rollback(1))
  have f: "take (cwdlen vfs) (file1 vfs') = take (cwdlen vfs) (file2 vfs)"
    unfolding v(1) using inv v(2-5) by (rule vfs_inv_rollback(2))
  have f1: "take (cwdlen vfs - 1) (file1 vfs') = take (cwdlen vfs - 1) (file2 vfs)"
    using f by (rule take_take_le[rotated]) simp
  have i': "cwdlen vfs < length (file1 vfs')" "peek (file1 vfs') (rootlen vfs - 1) = CHR ''/''"
    using inv' l by (simp_all add: vfs_inv_def)
  have "snd (vfs_getcwd vfs')
        = (if rootlen vfs < cwdlen vfs
           then drop (rootlen vfs - 1) (take (cwdlen vfs - 1) (file1 vfs')) else ''/'')"
    using getcwd_value[of vfs'] l i i' f1 by simp
  moreover have "snd (vfs_getcwd vfs)
        = (if rootlen vfs < cwdlen vfs
           then drop (rootlen vfs - 1) (take (cwdlen vfs - 1) (file1 vfs)) else ''/'')"
    using getcwd_value[of vfs] i by simp
  ultimately have g: "snd (vfs_getcwd vfs') = snd (vfs_getcwd vfs)"
    using f1 i(4) by simp
  show ?thesis using False g l f f1 inv' by simp
qed

text \<open>
  The theorem at the session with cwd \<open>/data/sub/\<close>, for a directory that does not
  exist.
\<close>

theorem chdir_failure_rolls_back_witness:
  "vfs_inv session_sub
   \<and> vfs_chdir (\<lambda>p. False) session_sub ''nonexistent''
       = (fst (vfs_chdir (\<lambda>p. False) session_sub ''nonexistent''), Some NotADirectory)
   \<and> snd (vfs_getcwd session_sub) = ''/sub''
   \<and> snd (vfs_getcwd (fst (vfs_chdir (\<lambda>p. False) session_sub ''nonexistent''))) = ''/sub''
   \<and> take 10 (file1 (fst (vfs_chdir (\<lambda>p. False) session_sub ''nonexistent'')))
       = take 10 (file2 (fst (vfs_chdir (\<lambda>p. False) session_sub ''nonexistent'')))
   \<and> vfs_inv (fst (vfs_chdir (\<lambda>p. False) session_sub ''nonexistent''))"
proof -
  have h: "vfs_chdir (\<lambda>p. False) session_sub ''nonexistent''
       = (fst (vfs_chdir (\<lambda>p. False) session_sub ''nonexistent''), Some NotADirectory)"
    by code_simp
  have v: "snd (vfs_getcwd session_sub) = ''/sub''" "cwdlen session_sub = 10"
    "\<not> length (file1 session_sub) < cwdlen session_sub + strlen ''nonexistent'' + 1"
    by code_simp+
  show ?thesis
    using chdir_failure_rolls_back[OF vfs_inv_session_sub h] h v vfs_inv_session_sub
    by (simp only: if_False simp_thms)
qed

text \<open>
  The claim as first stated has the two arrays agree on the committed cwd prefix after
  every failure.  \<^verbatim>\<open>vfs_getcwd\<close> puts a NUL in place of the separator of the first array
  (line 249; the comment of \<^verbatim>\<open>vfs_t\<close> calls it "temporary replaced"), and a
  \<^verbatim>\<open>vfs_chdir\<close> that fails the capacity check returns at line 140, before line 144
  restores the separator: the arrays differ in byte \<open>cwdlen - 1\<close>.
\<close>

theorem chdir_failure_counterexample:
  "vfs_inv session_sub_pwd
   \<and> snd (vfs_chdir (\<lambda>p. True) session_sub_pwd ''/abcdefghijklmnopqrstu'') = Some PathTooLong
   \<and> cwdlen (fst (vfs_chdir (\<lambda>p. True) session_sub_pwd ''/abcdefghijklmnopqrstu'')) = 10
   \<and> take 10 (file1 (fst (vfs_chdir (\<lambda>p. True) session_sub_pwd ''/abcdefghijklmnopqrstu'')))
       \<noteq> take 10 (file2 (fst (vfs_chdir (\<lambda>p. True) session_sub_pwd ''/abcdefghijklmnopqrstu'')))"
  by code_simp

text \<open>
  Claim C7, as amended.  For a session that satisfies the invariant and every absolute
  client path that passes the capacity check (\<open>cwdlen + length path + 1\<close> is at most the
  buffer size), \<^verbatim>\<open>abspath_\<close> with \<open>limit_to_cwd = true\<close> fails with
  \<open>PathEscapesRoot\<close> if and only if the portion of the cwd beyond the root is not a
  prefix of the client path, or the byte of the client path behind that prefix is neither
  the end of the string nor a slash.  On that failure the array is what it was, with the
  separator at \<open>cwdlen - 1\<close> in place: no byte of the client path is written.
\<close>

theorem absolute_path_escape:
  assumes "vfs_inv vfs" "peek path 0 = CHR ''/''" "cwdlen vfs + strlen path + 1 \<le> buflen"
  shows "(snd (abspath_impl vfs buffer buflen path True) = Some PathEscapesRoot \<longleftrightarrow>
            \<not> (prefix (cwd_beyond_root vfs buffer) (cstr path)
               \<and> (peek path (cwdlen vfs - rootlen vfs) = NUL
                  \<or> peek path (cwdlen vfs - rootlen vfs) = CHR ''/'')))
       \<and> (snd (abspath_impl vfs buffer buflen path True) = Some PathEscapesRoot \<longrightarrow>
            fst (abspath_impl vfs buffer buflen path True)
              = set_buffer vfs buffer ((get_buffer vfs buffer)[cwdlen vfs - 1 := CHR ''/'']))"
proof -
  have len: "cwdlen vfs \<le> length (get_buffer vfs buffer)"
    using assms(1) by (cases buffer) (simp_all add: vfs_inv_def)
  have t: "(strlen path < cwdlen vfs - rootlen vfs
          \<or> \<not> memcmp_eq ((get_buffer vfs buffer)[cwdlen vfs - 1 := CHR ''/'']) (rootlen vfs - 1)
                (rd path 0 (cwdlen vfs - rootlen vfs)))
         \<longleftrightarrow> \<not> prefix (cwd_beyond_root vfs buffer) (cstr path)"
    unfolding cwd_beyond_root_def using assms(1) len
    by (intro escape_test) (simp_all add: vfs_inv_def)
  show ?thesis
    using assms(2,3) t by (auto simp: abspath_impl_def abspath_finish_def Let_def)
qed

text \<open>
  The theorem for the absolute path \<open>/other\<close> in the session with cwd
  \<open>/data/sub/\<close>: it fails with \<open>PathEscapesRoot\<close> and leaves the session as it was.
\<close>

theorem absolute_path_escape_witness:
  "vfs_inv session_sub \<and> peek ''/other'' 0 = CHR ''/''
   \<and> cwdlen session_sub + strlen ''/other'' + 1 \<le> 32
   \<and> cwd_beyond_root session_sub File1 = ''/sub''
   \<and> \<not> prefix (cwd_beyond_root session_sub File1) (cstr ''/other'')
   \<and> snd (abspath_impl session_sub File1 32 ''/other'' True) = Some PathEscapesRoot
   \<and> fst (abspath_impl session_sub File1 32 ''/other'' True) = session_sub"
proof -
  have h: "peek ''/other'' 0 = CHR ''/''" "cwdlen session_sub + strlen ''/other'' + 1 \<le> 32"
    by code_simp+
  have v: "cwd_beyond_root session_sub File1 = ''/sub''"
    "\<not> prefix (cwd_beyond_root session_sub File1) (cstr ''/other'')"
    "set_buffer session_sub File1 ((get_buffer session_sub File1)[cwdlen session_sub - 1 := CHR ''/''])
     = session_sub"
    by code_simp+
  show ?thesis
    using absolute_path_escape[OF vfs_inv_session_sub h, of File1] h v vfs_inv_session_sub
    by (simp only: simp_thms)
qed

text \<open>
  The claim as first stated speaks of every absolute client path.  The capacity check
  comes first (lines 138-141): an absolute path outside the cwd that is too long for the
  array fails with \<open>PathTooLong\<close>, not with \<open>PathEscapesRoot\<close>.
\<close>

theorem absolute_path_escape_counterexample:
  "vfs_inv session_sub \<and> peek ''/other/abcdefghijklmnopq'' 0 = CHR ''/''
   \<and> \<not> prefix (cwd_beyond_root session_sub File1) (cstr ''/other/abcdefghijklmnopq'')
   \<and> snd (abspath_impl session_sub File1 (length (file1 session_sub)) ''/other/abcdefghijklmnopq'' True)
       = Some PathTooLong
   \<and> snd (abspath_impl session_sub File1 (length (file1 session_sub)) ''/other/abcdefghijklmnopq'' True)
       \<noteq> Some PathEscapesRoot"
  by code_simp

text \<open>
  Claim C8.  \<^verbatim>\<open>vfs_chdir\<close> never fails with \<open>PathEscapesRoot\<close>: its resolution runs with
  \<open>limit_to_cwd = false\<close> (line 189), in which mode the resolver fails exactly when the
  capacity check fails, and every failure of \<^verbatim>\<open>vfs_chdir\<close> is \<open>PathTooLong\<close> or
  \<open>NotADirectory\<close>.
\<close>

theorem chdir_errors:
  "snd (abspath_impl vfs buffer buflen path False)
     = (if buflen < cwdlen vfs + strlen path + 1 then Some PathTooLong else None)
   \<and> snd (vfs_chdir stat_isdir vfs path) \<noteq> Some PathEscapesRoot
   \<and> (snd (vfs_chdir stat_isdir vfs path) = None
      \<or> snd (vfs_chdir stat_isdir vfs path) = Some PathTooLong
      \<or> snd (vfs_chdir stat_isdir vfs path) = Some NotADirectory)"
proof -
  have "snd (vfs_chdir stat_isdir vfs path) = None
      \<or> snd (vfs_chdir stat_isdir vfs path) = Some PathTooLong
      \<or> snd (vfs_chdir stat_isdir vfs path) = Some NotADirectory"
  proof (cases "snd (vfs_chdir stat_isdir vfs path)")
    case None
    then show ?thesis by simp
  next
    case (Some e)
    then have "vfs_chdir stat_isdir vfs path = (fst (vfs_chdir stat_isdir vfs path), Some e)"
      by (metis prod.collapse)
    from vfs_chdir_failure[OF this] show ?thesis using Some by auto
  qed
  then show ?thesis by (auto simp: abspath_impl_unlimited)
qed

text \<open>
  The theorem in the session with cwd \<open>/data/sub/\<close>: a directory that does not exist,
  a path that fails the capacity check, and a path with no room left for the separator.
\<close>

theorem chdir_errors_witness:
  "snd (abspath_impl session_sub File1 32 ''nonexistent'' False) = None
   \<and> snd (vfs_chdir (\<lambda>p. False) session_sub ''nonexistent'') = Some NotADirectory
   \<and> snd (vfs_chdir (\<lambda>p. False) session_sub ''nonexistent'') \<noteq> Some PathEscapesRoot
   \<and> snd (vfs_chdir (\<lambda>p. True) session_sub ''/abcdefghijklmnopqrstu'') = Some PathTooLong
   \<and> snd (vfs_chdir (\<lambda>p. True) session_sub ''abcdefghijklmnopqrst'') = Some PathTooLong"
proof -
  have v: "snd (vfs_chdir (\<lambda>p. False) session_sub ''nonexistent'') = Some NotADirectory"
    "snd (vfs_chdir (\<lambda>p. True) session_sub ''/abcdefghijklmnopqrstu'') = Some PathTooLong"
    "snd (vfs_chdir (\<lambda>p. True) session_sub ''abcdefghijklmnopqrst'') = Some PathTooLong"
    "\<not> 32 < cwdlen session_sub + strlen ''nonexistent'' + 1"
    by code_simp+
  show ?thesis
    using chdir_errors[of session_sub File1 32 "''nonexistent''" "\<lambda>p. False"] v
    by (simp only: if_False simp_thms)
qed

text \<open>
  Claim C9.  The capacity check of the resolver is \<open>cwdlen + length path + 1 \<le> buflen\<close>
  in either mode, also where an absolute path is spliced at \<open>rootlen - 1\<close>; and there is
  a session with a cwd deeper than the root and an absolute target of \<^verbatim>\<open>vfs_chdir\<close> that
  would fit the array after splicing, separator and terminator included, and is rejected
  with \<open>PathTooLong\<close> all the same, whatever the file system holds.
\<close>

theorem capacity_check_counts_cwd:
  "(snd (abspath_impl vfs buffer buflen path limit_to_cwd) = Some PathTooLong
      \<longleftrightarrow> buflen < cwdlen vfs + strlen path + 1)
   \<and> (\<exists>v p. vfs_inv v \<and> rootlen v < cwdlen v \<and> peek p 0 = CHR ''/''
          \<and> (rootlen v - 1) + strlen p + 2 < length (file1 v)
          \<and> (\<forall>stat_isdir. snd (vfs_chdir stat_isdir v p) = Some PathTooLong))"
proof -
  let ?p = "''/abcdefghijklmnopqrstu''"
  have a: "rootlen session_sub < cwdlen session_sub \<and> peek ?p 0 = CHR ''/''
        \<and> (rootlen session_sub - 1) + strlen ?p + 2 < length (file1 session_sub)"
    by code_simp
  have b: "length (file1 session_sub) < cwdlen session_sub + strlen ?p + 1"
    by code_simp
  have "snd (vfs_chdir stat_isdir session_sub ?p) = Some PathTooLong" for stat_isdir
    using abspath_impl_too_long_state[OF b] by (simp add: vfs_chdir_def)
  then show ?thesis
    using a vfs_inv_session_sub abspath_impl_too_long by blast
qed

text \<open>
  The theorem in the session with cwd \<open>/data/sub/\<close> and 32-byte arrays, for an absolute
  path of 22 bytes: spliced behind the root it needs 28 bytes.
\<close>

theorem capacity_check_counts_cwd_witness:
  "32 < cwdlen session_sub + strlen ''/abcdefghijklmnopqrstu'' + 1
   \<and> snd (abspath_impl session_sub File1 32 ''/abcdefghijklmnopqrstu'' False) = Some PathTooLong
   \<and> (rootlen session_sub - 1) + strlen ''/abcdefghijklmnopqrstu'' + 2 < 32
   \<and> snd (vfs_chdir (\<lambda>p. True) session_sub ''/abcdefghijklmnopqrstu'') = Some PathTooLong"
proof -
  have v: "32 < cwdlen session_sub + strlen ''/abcdefghijklmnopqrstu'' + 1"
    "(rootlen session_sub - 1) + strlen ''/abcdefghijklmnopqrstu'' + 2 < 32"
    "snd (vfs_chdir (\<lambda>p. True) session_sub ''/abcdefghijklmnopqrstu'') = Some PathTooLong"
    by code_simp+
  show ?thesis
    using capacity_check_counts_cwd[of session_sub File1 32 "''/abcdefghijklmnopqrstu''" False] v
    by (simp only: simp_thms)
qed

text \<open>
  Claim C10, as amended.  \<^verbatim>\<open>vfs_getcwd\<close> changes the session by one NUL byte in the
  first array, at \<open>cwdlen - 1\<close> when the cwd is deeper than the root and at \<open>cwdlen\<close>
  otherwise.  A resolve that passes the capacity check (\<open>cwdlen + length path + 1\<close> is at
  most the buffer size) first writes the separator at \<open>cwdlen - 1\<close>, so that it returns
  the same session and the same result whatever byte stood there; a resolve that fails the
  capacity check writes nothing, the separator included, and returns the session as it
  was with \<open>PathTooLong\<close>.  Either way two \<^verbatim>\<open>vfs_getcwd\<close> in a row return equal
  strings, and a resolve after \<^verbatim>\<open>vfs_getcwd\<close> returns what the same resolve returns
  without it (the same path, or the same failure), into either array and in either mode.
\<close>

theorem getcwd_frame:
  assumes "0 < rootlen vfs" "rootlen vfs \<le> cwdlen vfs"
  shows "fst (vfs_getcwd vfs)
           = vfs\<lparr>file1 := (file1 vfs)[(if rootlen vfs < cwdlen vfs then cwdlen vfs - 1
                                        else cwdlen vfs) := NUL]\<rparr>
       \<and> snd (vfs_getcwd (fst (vfs_getcwd vfs))) = snd (vfs_getcwd vfs)
       \<and> resolved (abspath_impl
                     (set_buffer vfs buffer ((get_buffer vfs buffer)[cwdlen vfs - 1 := c]))
                     buffer buflen path lim) buffer
           = resolved (abspath_impl vfs buffer buflen path lim) buffer
       \<and> (cwdlen vfs + strlen path + 1 \<le> buflen \<longrightarrow>
            abspath_impl (set_buffer vfs buffer ((get_buffer vfs buffer)[cwdlen vfs - 1 := c]))
              buffer buflen path lim
            = abspath_impl vfs buffer buflen path lim)
       \<and> (buflen < cwdlen vfs + strlen path + 1 \<longrightarrow>
            abspath_impl vfs buffer buflen path lim = (vfs, Some PathTooLong)
            \<and> abspath_impl (fst (vfs_getcwd vfs)) buffer buflen path lim
                = (fst (vfs_getcwd vfs), Some PathTooLong))
       \<and> resolved (abspath_impl (fst (vfs_getcwd vfs)) buffer buflen path lim) buffer
           = resolved (abspath_impl vfs buffer buflen path lim) buffer"
proof -
  have 1: "fst (vfs_getcwd vfs)
           = vfs\<lparr>file1 := (file1 vfs)[(if rootlen vfs < cwdlen vfs then cwdlen vfs - 1
                                        else cwdlen vfs) := NUL]\<rparr>"
    by (simp add: vfs_getcwd_def)
  have 2: "snd (vfs_getcwd (fst (vfs_getcwd vfs))) = snd (vfs_getcwd vfs)"
    by (simp add: vfs_getcwd_def)
  have 3: "resolved (abspath_impl
                     (set_buffer vfs buffer ((get_buffer vfs buffer)[cwdlen vfs - 1 := c]))
                     buffer buflen path lim) buffer
           = resolved (abspath_impl vfs buffer buflen path lim) buffer"
  proof (cases "cwdlen vfs + strlen path + 1 \<le> buflen")
    case True
    show ?thesis by (simp only: abspath_impl_separator[OF True])
  next
    case False
    then show ?thesis
      by (simp add: abspath_impl_too_long_state lens_set_buffer resolved_def)
  qed
  have 4: "cwdlen vfs + strlen path + 1 \<le> buflen \<longrightarrow>
            abspath_impl (set_buffer vfs buffer ((get_buffer vfs buffer)[cwdlen vfs - 1 := c]))
              buffer buflen path lim
            = abspath_impl vfs buffer buflen path lim"
    using abspath_impl_separator by blast
  have 5: "resolved (abspath_impl (fst (vfs_getcwd vfs)) buffer buflen path lim) buffer
           = resolved (abspath_impl vfs buffer buflen path lim) buffer"
  proof (cases buffer)
    case File1
    show ?thesis
    proof (cases "cwdlen vfs + strlen path + 1 \<le> buflen")
      case True
      then show ?thesis
        using abspath_impl_after_getcwd_file1[OF assms] File1 by simp
    next
      case False
      then show ?thesis
        by (simp add: abspath_impl_def abspath_finish_def Let_def resolved_def vfs_getcwd_def)
    qed
  next
    case File2
    then show ?thesis using abspath_impl_after_getcwd_file2 by simp
  qed
  have 6: "buflen < cwdlen vfs + strlen path + 1 \<longrightarrow>
            abspath_impl vfs buffer buflen path lim = (vfs, Some PathTooLong)
            \<and> abspath_impl (fst (vfs_getcwd vfs)) buffer buflen path lim
                = (fst (vfs_getcwd vfs), Some PathTooLong)"
  proof
    assume a: "buflen < cwdlen vfs + strlen path + 1"
    have "cwdlen (fst (vfs_getcwd vfs)) = cwdlen vfs" by (simp add: vfs_getcwd_def)
    then have "buflen < cwdlen (fst (vfs_getcwd vfs)) + strlen path + 1" using a by simp
    then show "abspath_impl vfs buffer buflen path lim = (vfs, Some PathTooLong)
            \<and> abspath_impl (fst (vfs_getcwd vfs)) buffer buflen path lim
                = (fst (vfs_getcwd vfs), Some PathTooLong)"
      using a abspath_impl_too_long_state by blast
  qed
  show ?thesis by (intro conjI 1 2 3 4 5 6)
qed

text \<open>
  The theorem in the session with cwd \<open>/data/sub/\<close>, where the NUL goes to byte 9, for a
  path that passes the capacity check and for one that fails it, and in the session at
  the root, where the NUL goes to byte 6.
\<close>

theorem getcwd_frame_witness:
  "0 < rootlen session_sub \<and> rootlen session_sub \<le> cwdlen session_sub
   \<and> fst (vfs_getcwd session_sub) = session_sub\<lparr>file1 := (file1 session_sub)[9 := NUL]\<rparr>
   \<and> snd (vfs_getcwd session_sub) = ''/sub''
   \<and> snd (vfs_getcwd (fst (vfs_getcwd session_sub))) = ''/sub''
   \<and> cwdlen session_sub + strlen ''a/b'' + 1 \<le> 32
   \<and> abspath_impl (set_buffer session_sub File1 ((get_buffer session_sub File1)[cwdlen session_sub - 1 := NUL]))
       File1 32 ''a/b'' True
     = abspath_impl session_sub File1 32 ''a/b'' True
   \<and> resolved (abspath_impl session_sub File1 32 ''a/b'' True) File1 = Inr ''/data/sub/a/b''
   \<and> resolved (abspath_impl (fst (vfs_getcwd session_sub)) File1 32 ''a/b'' True) File1
       = Inr ''/data/sub/a/b''
   \<and> 32 < cwdlen session_sub + strlen ''/abcdefghijklmnopqrstu'' + 1
   \<and> abspath_impl session_sub File1 32 ''/abcdefghijklmnopqrstu'' True
       = (session_sub, Some PathTooLong)
   \<and> abspath_impl (fst (vfs_getcwd session_sub)) File1 32 ''/abcdefghijklmnopqrstu'' True
       = (fst (vfs_getcwd session_sub), Some PathTooLong)
   \<and> 0 < rootlen session_root \<and> rootlen session_root \<le> cwdlen session_root
   \<and> fst (vfs_getcwd session_root) = session_root\<lparr>file1 := (file1 session_root)[6 := NUL]\<rparr>
   \<and> resolved (abspath_impl session_root File1 32 ''/a'' False) File1 = Inr ''/data/a''
   \<and> resolved (abspath_impl (fst (vfs_getcwd session_root)) File1 32 ''/a'' False) File1
       = Inr ''/data/a''"
proof -
  have h: "0 < rootlen session_sub" "rootlen session_sub \<le> cwdlen session_sub"
    by code_simp+
  have v: "snd (vfs_getcwd session_sub) = ''/sub''"
    "resolved (abspath_impl session_sub File1 32 ''a/b'' True) File1 = Inr ''/data/sub/a/b''"
    "(if rootlen session_sub < cwdlen session_sub then cwdlen session_sub - 1
      else cwdlen session_sub) = 9"
    by code_simp+
  have k: "cwdlen session_sub + strlen ''a/b'' + 1 \<le> 32"
    "32 < cwdlen session_sub + strlen ''/abcdefghijklmnopqrstu'' + 1"
    by code_simp+
  note g = getcwd_frame[OF h, where buffer = File1 and c = NUL and buflen = 32
      and path = "''a/b''" and lim = True]
  have c1: "fst (vfs_getcwd session_sub) = session_sub\<lparr>file1 := (file1 session_sub)[9 := NUL]\<rparr>"
    using g[THEN conjunct1] v(3) by (simp only:)
  have c2: "snd (vfs_getcwd (fst (vfs_getcwd session_sub))) = ''/sub''"
    using g[THEN conjunct2, THEN conjunct1] v(1) by (simp only:)
  have c4: "abspath_impl (set_buffer session_sub File1 ((get_buffer session_sub File1)[cwdlen session_sub - 1 := NUL]))
       File1 32 ''a/b'' True
     = abspath_impl session_sub File1 32 ''a/b'' True"
    using g[THEN conjunct2, THEN conjunct2, THEN conjunct2, THEN conjunct1, THEN mp, OF k(1)] .
  have c5: "resolved (abspath_impl (fst (vfs_getcwd session_sub)) File1 32 ''a/b'' True) File1
            = Inr ''/data/sub/a/b''"
    using g[THEN conjunct2, THEN conjunct2, THEN conjunct2, THEN conjunct2, THEN conjunct2] v(2)
    by (simp only:)
  note l = getcwd_frame[OF h, where buffer = File1 and c = NUL and buflen = 32
      and path = "''/abcdefghijklmnopqrstu''" and lim = True]
  note l6 = l[THEN conjunct2, THEN conjunct2, THEN conjunct2, THEN conjunct2, THEN conjunct1,
      THEN mp, OF k(2)]
  have h': "0 < rootlen session_root" "rootlen session_root \<le> cwdlen session_root"
    by code_simp+
  have v': "resolved (abspath_impl session_root File1 32 ''/a'' False) File1 = Inr ''/data/a''"
    "(if rootlen session_root < cwdlen session_root then cwdlen session_root - 1
      else cwdlen session_root) = 6"
    by code_simp+
  note g' = getcwd_frame[OF h', where buffer = File1 and c = NUL and buflen = 32
      and path = "''/a''" and lim = False]
  have d1: "fst (vfs_getcwd session_root) = session_root\<lparr>file1 := (file1 session_root)[6 := NUL]\<rparr>"
    using g'[THEN conjunct1] v'(2) by (simp only:)
  have d5: "resolved (abspath_impl (fst (vfs_getcwd session_root)) File1 32 ''/a'' False) File1
            = Inr ''/data/a''"
    using g'[THEN conjunct2, THEN conjunct2, THEN conjunct2, THEN conjunct2, THEN conjunct2] v'(1)
    by (simp only:)
  show ?thesis
    by (intro conjI h c1 c2 k c4 c5 v(1,2) l6[THEN conjunct1] l6[THEN conjunct2] h' d1 d5 v'(1))
qed

text \<open>
  The claim as first stated has every resolve restore the separator at \<open>cwdlen - 1\<close>
  first.  The capacity check comes before that (lines 138-141 return before line 144
  writes the separator): after \<^verbatim>\<open>vfs_getcwd\<close> in the session with cwd \<open>/data/sub/\<close>,
  a resolve of a path too long for the array fails, and byte 9 of the first array, where
  the separator stood, is still the NUL that \<^verbatim>\<open>vfs_getcwd\<close> wrote.
\<close>

theorem getcwd_frame_counterexample:
  "peek (file1 session_sub) (cwdlen session_sub - 1) = CHR ''/''
   \<and> peek (file1 (fst (vfs_getcwd session_sub))) (cwdlen session_sub - 1) = NUL
   \<and> snd (abspath (fst (vfs_getcwd session_sub)) ''/abcdefghijklmnopqrstu'') = Some PathTooLong
   \<and> peek (file1 (fst (abspath (fst (vfs_getcwd session_sub)) ''/abcdefghijklmnopqrstu'')))
        (cwdlen session_sub - 1) = NUL
   \<and> peek (file1 (fst (abspath (fst (vfs_getcwd session_sub)) ''/abcdefghijklmnopqrstu'')))
        (cwdlen session_sub - 1) \<noteq> CHR ''/''
   \<and> snd (abspath (fst (vfs_getcwd session_sub)) ''abcdefghijklmnopqrstuv'') = Some PathTooLong
   \<and> peek (file1 (fst (abspath (fst (vfs_getcwd session_sub)) ''abcdefghijklmnopqrstuv'')))
        (cwdlen session_sub - 1) = NUL"
  by code_simp

end
